theory Spec2Isabelle
  imports Main "HOL-Library.Sublist"
begin

section \<open>Python values, strings and exceptions\<close>

text \<open>
  The values that flow through \<^verbatim>\<open>cookie_manager.py\<close> are JSON-like: the cookie
  dictionaries Playwright returns, and whatever \<^verbatim>\<open>json.load\<close> reads back from
  \<^verbatim>\<open>cookies.json\<close>. Numbers are only passed through or compared with nothing, so one
  constructor carries them. A dictionary is an association list; lookup takes the first
  binding of a key and the length counts distinct keys.
\<close>

datatype pyval =
    PNone
  | PBool bool
  | PNum int
  | PStr string
  | PList "pyval list"
  | PDict "(string \<times> pyval) list"

text \<open>
  Every \<^verbatim>\<open>except Exception\<close> of the module catches these. \<open>External\<close> is an exception
  raised by a collaborator (Playwright, asyncio, the operating system), with its message.
\<close>

datatype exn =
    External string
  | KeyError string
  | TypeError string

text \<open>\<^verbatim>\<open>str.lower()\<close> on ASCII text: the letters A to Z get bit 5 set.\<close>

definition lower_char :: "char \<Rightarrow> char" where
  "lower_char c =
     (if 65 \<le> (of_char c :: nat) \<and> (of_char c :: nat) \<le> 90
      then Char (digit0 c) (digit1 c) (digit2 c) (digit3 c) (digit4 c) True (digit6 c) (digit7 c)
      else c)"

definition lower :: "string \<Rightarrow> string" where
  "lower s = map lower_char s"

text \<open>\<^verbatim>\<open>p in s\<close> for two strings: \<open>p\<close> occurs in \<open>s\<close> as a contiguous substring.\<close>

fun str_in :: "string \<Rightarrow> string \<Rightarrow> bool" where
  "str_in p [] = (p = [])"
| "str_in p (c # cs) = (prefix p (c # cs) \<or> str_in p cs)"

text \<open>\<^verbatim>\<open>p in v\<close> for a string \<open>p\<close> and any value \<open>v\<close>; a value that is no container raises.\<close>

fun py_in :: "string \<Rightarrow> pyval \<Rightarrow> exn + bool" where
  "py_in p (PStr s) = Inr (str_in p s)"
| "py_in p (PList vs) = Inr (PStr p \<in> set vs)"
| "py_in p (PDict kvs) = Inr (p \<in> set (map fst kvs))"
| "py_in p v = Inl (TypeError ''argument is not iterable'')"

text \<open>\<^verbatim>\<open>len(v)\<close>; a number, a boolean and \<^verbatim>\<open>None\<close> have no length.\<close>

fun py_len :: "pyval \<Rightarrow> exn + nat" where
  "py_len (PStr s) = Inr (length s)"
| "py_len (PList vs) = Inr (length vs)"
| "py_len (PDict kvs) = Inr (length (remdups (map fst kvs)))"
| "py_len v = Inl (TypeError ''object has no len()'')"

text \<open>\<^verbatim>\<open>not x\<close> for the result of \<^verbatim>\<open>os.getenv\<close>: unset or the empty string.\<close>

definition falsy :: "string option \<Rightarrow> bool" where
  "falsy x = (case x of None \<Rightarrow> True | Some s \<Rightarrow> s = [])"

section \<open>Configuration\<close>

definition YOUTUBE_URL :: string where
  "YOUTUBE_URL = ''https://www.youtube.com''"

definition GMAIL_LOGIN_URL :: string where
  "GMAIL_LOGIN_URL = ''https://accounts.google.com/signin''"

definition LOGIN_TIMEOUT :: nat where
  "LOGIN_TIMEOUT = 60"

definition REFRESH_INTERVAL :: nat where
  "REFRESH_INTERVAL = 12 * 60 * 60"

text \<open>The list literal of line 239.\<close>

definition target_domains :: "string list" where
  "target_domains = [''.youtube.com'', ''.google.com'', ''youtube.com'', ''google.com'']"

section \<open>Diagnostics and traces\<close>

text \<open>One constructor per \<^verbatim>\<open>print\<close> of the module, with the values its f-string embeds.\<close>

datatype msg =
    MsgBrowserStartFailed exn
  | MsgCloseError exn
  | MsgLoggingIn string
  | MsgLoginOk
  | Msg2FARequired
  | MsgAlreadyAuthenticated
  | MsgLoginMayHaveFailed string
  | MsgLoginFailed exn
  | MsgNavigating
  | MsgYouTubeOk
  | MsgSignInFound
  | MsgAppearsLoggedIn
  | MsgNavigateFailed exn
  | MsgExtracting
  | MsgNoCookies
  | MsgNoYouTubeCookies
  | MsgSaved nat
  | MsgExtractFailed exn
  | MsgMissingCredentials
  | MsgRefreshed
  | MsgRefreshFailed
  | MsgRefreshError exn
  | MsgSyncError exn
  | MsgLoopStarting nat
  | MsgScheduledRefresh
  | MsgLoopStopped
  | MsgAlreadyRunning
  | MsgLoopStarted
  | MsgStopRequested

text \<open>The CSS selectors the module passes to the page.\<close>

datatype selector =
    EmailInput
  | EmailNext
  | PasswordInput
  | PasswordNext
  | AccountIndicator
  | SignInAffordance

datatype bcall =
    PlaywrightStart
  | Launch
  | NewContext
  | NewPage
  | SetExtraHeaders
  | Goto string nat
  | WaitForSelector selector nat
  | Fill selector string
  | Click selector
  | WaitForFunction nat
  | PageContent
  | QuerySelector selector
  | ReadCookies
  | PageClose
  | BrowserClose

text \<open>
  What one refresh does, in order: a line printed, a call into the browser, a pause of
  \<^verbatim>\<open>asyncio.sleep\<close>, and \<^verbatim>\<open>open(COOKIES_FILE, 'w')\<close>.
\<close>

datatype event =
    Print msg
  | Call bcall
  | Pause nat
  | OpenForWrite

section \<open>The collaborators of one refresh\<close>

type_synonym raw_cookie = "(string \<times> pyval) list"

text \<open>
  The store file \<^verbatim>\<open>cookies.json\<close>: absent, present but failing to open or read, or
  present with its bytes.
\<close>

datatype fnode =
    Absent
  | Unreadable exn
  | Content string

text \<open>
  The outcome of lines 257 and 258: \<^verbatim>\<open>open(..., 'w')\<close> raises and the file is as it was;
  or the file was opened (and so truncated) and \<^verbatim>\<open>json.dump\<close> or the closing flush
  raises once some prefix of the text reached the file; or all of it is written.
\<close>

datatype write_outcome =
    WriteOk
  | OpenFails exn
  | WriteFails nat exn

text \<open>
  Each call site of the module runs at most once in a refresh, so the behaviour of the
  collaborators during one refresh is one answer per call site: \<open>None\<close> is a normal
  return, \<open>Some e\<close> raises \<open>e\<close>. The two calls of \<^verbatim>\<open>page.fill\<close> are handed the
  credentials, so their answers are given for every text typed: the exception of a
  fill may carry what was typed.
\<close>

record responses =
  loop_run :: "exn option"
  pw_start :: "exn option"
  launch :: "exn option"
  new_context :: "exn option"
  new_page :: "exn option"
  set_headers :: "exn option"
  goto_login :: "exn option"
  wait_email :: "exn option"
  fill_email :: "string \<Rightarrow> exn option"
  click_email_next :: "exn option"
  wait_password :: "exn option"
  fill_password :: "string \<Rightarrow> exn option"
  click_password_next :: "exn option"
  wait_login_done :: "exn option"
  page_url :: string
  page_content :: "exn + string"
  goto_youtube :: "exn option"
  wait_account :: "exn option"
  query_sign_in :: "exn + bool"
  read_cookies :: "exn + raw_cookie list"
  fs_write :: write_outcome
  page_close :: "exn option"
  browser_close :: "exn option"

text \<open>
  A \<^verbatim>\<open>try\<close> body that is a straight line of awaited calls: they run in order and the
  first one that raises ends the body.
\<close>

fun attempt :: "(event \<times> exn option) list \<Rightarrow> event list \<times> exn option" where
  "attempt [] = ([], None)"
| "attempt ((c, Some e) # rest) = ([c], Some e)"
| "attempt ((c, None) # rest) = (case attempt rest of (evs, r) \<Rightarrow> (c # evs, r))"

section \<open>YouTubeCookieManager\<close>

text \<open>The two attributes of the manager: whether each handle has been assigned.\<close>

record manager =
  has_browser :: bool
  has_page :: bool

text \<open>\<^verbatim>\<open>start_browser\<close> (lines 65 to 102): logs and re-raises.\<close>

definition start_browser :: "responses \<Rightarrow> manager \<times> event list \<times> exn option" where
  "start_browser b =
     (let m = \<lparr>has_browser = (pw_start b = None \<and> launch b = None),
               has_page = (pw_start b = None \<and> launch b = None \<and> new_context b = None
                           \<and> new_page b = None)\<rparr>
      in case attempt [(Call PlaywrightStart, pw_start b), (Call Launch, launch b),
                       (Call NewContext, new_context b), (Call NewPage, new_page b),
                       (Call SetExtraHeaders, set_headers b)] of
           (evs, Some e) \<Rightarrow> (m, evs @ [Print (MsgBrowserStartFailed e)], Some e)
         | (evs, None) \<Rightarrow> (m, evs, None))"

text \<open>\<^verbatim>\<open>close_browser\<close> (lines 104 to 112): one \<^verbatim>\<open>try\<close> around both closes.\<close>

definition close_browser :: "responses \<Rightarrow> manager \<Rightarrow> event list \<times> exn option" where
  "close_browser b m =
     (case attempt ((if has_page m then [(Call PageClose, page_close b)] else []) @
                    (if has_browser m then [(Call BrowserClose, browser_close b)] else [])) of
        (evs, Some e) \<Rightarrow> (evs @ [Print (MsgCloseError e)], None)
      | (evs, None) \<Rightarrow> (evs, None))"

text \<open>The handler of lines 158 to 171, once the URL and the content have been read.\<close>

definition on_wait_error :: "string \<Rightarrow> string \<Rightarrow> bool \<times> msg" where
  "on_wait_error current_url content =
     (if str_in ''verify'' (lower current_url) \<or> str_in ''challenge'' (lower content)
      then (False, Msg2FARequired)
      else if str_in ''youtube.com'' current_url \<or> str_in ''myaccount.google.com'' current_url
      then (True, MsgAlreadyAuthenticated)
      else (False, MsgLoginMayHaveFailed current_url))"

text \<open>\<^verbatim>\<open>login_to_gmail\<close> (lines 114 to 175).\<close>

definition login_to_gmail :: "responses \<Rightarrow> string \<Rightarrow> string \<Rightarrow> bool \<times> event list" where
  "login_to_gmail b email password =
     (case attempt [(Call (Goto GMAIL_LOGIN_URL (LOGIN_TIMEOUT * 1000)), goto_login b),
                    (Call (WaitForSelector EmailInput (LOGIN_TIMEOUT * 1000)), wait_email b),
                    (Call (Fill EmailInput email), fill_email b email),
                    (Call (Click EmailNext), click_email_next b),
                    (Call (WaitForSelector PasswordInput (LOGIN_TIMEOUT * 1000)), wait_password b),
                    (Pause 2, None),
                    (Call (Fill PasswordInput password), fill_password b password),
                    (Call (Click PasswordNext), click_password_next b)] of
        (evs, Some e) \<Rightarrow> (False, Print (MsgLoggingIn email) # evs @ [Print (MsgLoginFailed e)])
      | (evs, None) \<Rightarrow>
          (case wait_login_done b of
             None \<Rightarrow>
               (True, Print (MsgLoggingIn email) # evs @
                        [Call (WaitForFunction (LOGIN_TIMEOUT * 1000)), Print MsgLoginOk])
           | Some wait_error \<Rightarrow>
               (case page_content b of
                  Inl e \<Rightarrow>
                    (False, Print (MsgLoggingIn email) # evs @
                              [Call (WaitForFunction (LOGIN_TIMEOUT * 1000)), Call PageContent,
                               Print (MsgLoginFailed e)])
                | Inr content \<Rightarrow>
                    (case on_wait_error (page_url b) content of
                       (r, m) \<Rightarrow>
                         (r, Print (MsgLoggingIn email) # evs @
                               [Call (WaitForFunction (LOGIN_TIMEOUT * 1000)), Call PageContent,
                                Print m])))))"

text \<open>\<^verbatim>\<open>navigate_to_youtube\<close> (lines 177 to 216).\<close>

definition navigate_to_youtube :: "responses \<Rightarrow> bool \<times> event list" where
  "navigate_to_youtube b =
     (case attempt [(Call (Goto YOUTUBE_URL (LOGIN_TIMEOUT * 1000)), goto_youtube b),
                    (Pause 3, None)] of
        (evs, Some e) \<Rightarrow> (False, Print MsgNavigating # evs @ [Print (MsgNavigateFailed e)])
      | (evs, None) \<Rightarrow>
          (case wait_account b of
             None \<Rightarrow>
               (True, Print MsgNavigating # evs @
                        [Call (WaitForSelector AccountIndicator 10000), Print MsgYouTubeOk])
           | Some _ \<Rightarrow>
               (case query_sign_in b of
                  Inl e \<Rightarrow>
                    (False, Print MsgNavigating # evs @
                              [Call (WaitForSelector AccountIndicator 10000),
                               Call (QuerySelector SignInAffordance), Print (MsgNavigateFailed e)])
                | Inr found \<Rightarrow>
                    (if found
                     then (False, Print MsgNavigating # evs @
                                    [Call (WaitForSelector AccountIndicator 10000),
                                     Call (QuerySelector SignInAffordance), Print MsgSignInFound])
                     else (True, Print MsgNavigating # evs @
                                   [Call (WaitForSelector AccountIndicator 10000),
                                    Call (QuerySelector SignInAffordance),
                                    Print MsgAppearsLoggedIn])))))"

subsection \<open>Cookie extraction\<close>

text \<open>The dictionary built at lines 241 to 250.\<close>

record persisted =
  c_name :: pyval
  c_value :: pyval
  c_domain :: pyval
  c_path :: pyval
  c_expires :: pyval
  c_httpOnly :: pyval
  c_secure :: pyval
  c_sameSite :: pyval

text \<open>\<^verbatim>\<open>cookie[k]\<close> and \<^verbatim>\<open>cookie.get(k, d)\<close>.\<close>

definition subscript :: "raw_cookie \<Rightarrow> string \<Rightarrow> exn + pyval" where
  "subscript c k = (case map_of c k of None \<Rightarrow> Inl (KeyError k) | Some v \<Rightarrow> Inr v)"

definition dict_get :: "raw_cookie \<Rightarrow> string \<Rightarrow> pyval \<Rightarrow> pyval" where
  "dict_get c k d = (case map_of c k of None \<Rightarrow> d | Some v \<Rightarrow> v)"

text \<open>
  The generator under \<^verbatim>\<open>any\<close> at line 239: \<^verbatim>\<open>cookie['domain']\<close> is evaluated for each
  target in turn and the first hit ends the search.
\<close>

fun any_domain :: "string list \<Rightarrow> raw_cookie \<Rightarrow> exn + bool" where
  "any_domain [] c = Inr False"
| "any_domain (d # ds) c =
     (case subscript c ''domain'' of
        Inl e \<Rightarrow> Inl e
      | Inr v \<Rightarrow>
          (case py_in d v of
             Inl e \<Rightarrow> Inl e
           | Inr True \<Rightarrow> Inr True
           | Inr False \<Rightarrow> any_domain ds c))"

definition convert :: "raw_cookie \<Rightarrow> exn + persisted" where
  "convert c =
     (case subscript c ''name'' of
        Inl e \<Rightarrow> Inl e
      | Inr n \<Rightarrow>
          (case subscript c ''value'' of
             Inl e \<Rightarrow> Inl e
           | Inr v \<Rightarrow>
               (case subscript c ''domain'' of
                  Inl e \<Rightarrow> Inl e
                | Inr d \<Rightarrow>
                    Inr \<lparr>c_name = n, c_value = v, c_domain = d,
                         c_path = dict_get c ''path'' (PStr ''/''),
                         c_expires = dict_get c ''expires'' (PNum (- 1)),
                         c_httpOnly = dict_get c ''httpOnly'' (PBool False),
                         c_secure = dict_get c ''secure'' (PBool False),
                         c_sameSite = dict_get c ''sameSite'' (PStr ''no_restriction'')\<rparr>)))"

text \<open>The loop of lines 236 to 250, building \<^verbatim>\<open>youtube_cookies\<close> in order.\<close>

fun youtube_cookies :: "raw_cookie list \<Rightarrow> exn + persisted list" where
  "youtube_cookies [] = Inr []"
| "youtube_cookies (c # cs) =
     (case any_domain target_domains c of
        Inl e \<Rightarrow> Inl e
      | Inr False \<Rightarrow> youtube_cookies cs
      | Inr True \<Rightarrow>
          (case convert c of
             Inl e \<Rightarrow> Inl e
           | Inr p \<Rightarrow>
               (case youtube_cookies cs of
                  Inl e \<Rightarrow> Inl e
                | Inr ps \<Rightarrow> Inr (p # ps))))"

text \<open>
  \<^verbatim>\<open>extract_and_save_cookies\<close> (lines 218 to 265). \<open>dumps\<close> is the text
  \<^verbatim>\<open>json.dump(..., indent=2)\<close> produces for a list of cookie dictionaries.
\<close>

definition extract_and_save_cookies ::
  "(persisted list \<Rightarrow> string) \<Rightarrow> responses \<Rightarrow> fnode \<Rightarrow> bool \<times> event list \<times> fnode" where
  "extract_and_save_cookies dumps b file =
     (case read_cookies b of
        Inl e \<Rightarrow> (False, [Print MsgExtracting, Call ReadCookies, Print (MsgExtractFailed e)], file)
      | Inr cookies \<Rightarrow>
          (if cookies = []
           then (False, [Print MsgExtracting, Call ReadCookies, Print MsgNoCookies], file)
           else
             (case youtube_cookies cookies of
                Inl e \<Rightarrow>
                  (False, [Print MsgExtracting, Call ReadCookies, Print (MsgExtractFailed e)], file)
              | Inr ys \<Rightarrow>
                  (if ys = []
                   then (False, [Print MsgExtracting, Call ReadCookies, Print MsgNoYouTubeCookies],
                         file)
                   else
                     (case fs_write b of
                        OpenFails e \<Rightarrow>
                          (False, [Print MsgExtracting, Call ReadCookies, OpenForWrite,
                                   Print (MsgExtractFailed e)], file)
                      | WriteFails k e \<Rightarrow>
                          (False, [Print MsgExtracting, Call ReadCookies, OpenForWrite,
                                   Print (MsgExtractFailed e)], Content (take k (dumps ys)))
                      | WriteOk \<Rightarrow>
                          (True, [Print MsgExtracting, Call ReadCookies, OpenForWrite,
                                  Print (MsgSaved (length ys))], Content (dumps ys)))))))"

text \<open>
  \<^verbatim>\<open>perform_login_and_save_cookies\<close> (lines 267 to 296). The three methods it awaits
  catch every exception themselves, so its own handler has nothing to catch.
\<close>

definition perform_login_and_save_cookies ::
  "(string \<Rightarrow> string option) \<Rightarrow> (persisted list \<Rightarrow> string) \<Rightarrow> responses \<Rightarrow> fnode
     \<Rightarrow> bool \<times> event list \<times> fnode" where
  "perform_login_and_save_cookies getenv dumps b file =
     (if falsy (getenv ''YOUTUBE_EMAIL'') \<or> falsy (getenv ''YOUTUBE_PASSWORD'')
      then (False, [Print MsgMissingCredentials], file)
      else
        (case login_to_gmail b (the (getenv ''YOUTUBE_EMAIL'')) (the (getenv ''YOUTUBE_PASSWORD'')) of
           (False, evs1) \<Rightarrow> (False, evs1, file)
         | (True, evs1) \<Rightarrow>
             (case navigate_to_youtube b of
                (False, evs2) \<Rightarrow> (False, evs1 @ evs2, file)
              | (True, evs2) \<Rightarrow>
                  (case extract_and_save_cookies dumps b file of
                     (r, evs3, file') \<Rightarrow> (r, evs1 @ evs2 @ evs3, file')))))"

section \<open>The refresh operation\<close>

text \<open>
  \<^verbatim>\<open>refresh_cookies_async\<close> (lines 299 to 317). \<^verbatim>\<open>async with\<close> awaits
  \<^verbatim>\<open>start_browser\<close> on entry; when that raises the block and the exit are skipped.
  Otherwise the block runs and \<^verbatim>\<open>close_browser\<close> is awaited on the way out.
\<close>

definition refresh_cookies_async ::
  "(string \<Rightarrow> string option) \<Rightarrow> (persisted list \<Rightarrow> string) \<Rightarrow> responses \<Rightarrow> fnode
     \<Rightarrow> bool \<times> event list \<times> fnode" where
  "refresh_cookies_async getenv dumps b file =
     (case start_browser b of
        (m, evs0, Some e) \<Rightarrow> (False, evs0 @ [Print (MsgRefreshError e)], file)
      | (m, evs0, None) \<Rightarrow>
          (case perform_login_and_save_cookies getenv dumps b file of
             (success, evs1, file') \<Rightarrow>
               (case close_browser b m of
                  (evs2, Some e) \<Rightarrow>
                    (False, evs0 @ evs1 @
                       [Print (if success then MsgRefreshed else MsgRefreshFailed)] @ evs2 @
                       [Print (MsgRefreshError e)], file')
                | (evs2, None) \<Rightarrow>
                    (success, evs0 @ evs1 @
                       [Print (if success then MsgRefreshed else MsgRefreshFailed)] @ evs2,
                     file'))))"

text \<open>
  \<^verbatim>\<open>refresh_cookies\<close> (lines 320 to 339): \<open>loop_run\<close> is an exception of the event
  loop itself, raised before the coroutine runs.
\<close>

definition refresh_cookies ::
  "(string \<Rightarrow> string option) \<Rightarrow> (persisted list \<Rightarrow> string) \<Rightarrow> responses \<Rightarrow> fnode
     \<Rightarrow> bool \<times> event list \<times> fnode" where
  "refresh_cookies getenv dumps b file =
     (case loop_run b of
        Some e \<Rightarrow> (False, [Print (MsgSyncError e)], file)
      | None \<Rightarrow> refresh_cookies_async getenv dumps b file)"

section \<open>The store check\<close>

text \<open>
  The body of the \<^verbatim>\<open>try\<close> in \<^verbatim>\<open>check_cookies_file\<close> (lines 397 to 402). \<open>loads\<close> is
  \<^verbatim>\<open>json.load\<close> on the bytes of the file: the value parsed, or the exception raised.
\<close>

definition check_body :: "(string \<Rightarrow> exn + pyval) \<Rightarrow> fnode \<Rightarrow> exn + bool" where
  "check_body loads file =
     (case file of
        Absent \<Rightarrow> Inr False
      | Unreadable e \<Rightarrow> Inl e
      | Content s \<Rightarrow>
          (case loads s of
             Inl e \<Rightarrow> Inl e
           | Inr cookies \<Rightarrow>
               (case py_len cookies of
                  Inl e \<Rightarrow> Inl e
                | Inr n \<Rightarrow> Inr (n > 0))))"

text \<open>\<^verbatim>\<open>check_cookies_file\<close> (lines 389 to 405).\<close>

definition check_cookies_file :: "(string \<Rightarrow> exn + pyval) \<Rightarrow> fnode \<Rightarrow> bool" where
  "check_cookies_file loads file =
     (case check_body loads file of Inl e \<Rightarrow> False | Inr r \<Rightarrow> r)"

section \<open>The renewal scheduler\<close>

text \<open>
  The control points of \<^verbatim>\<open>_refresh_loop\<close> (lines 342 to 362): before the first
  statement, at the test of the \<^verbatim>\<open>while\<close>, at the head of the \<^verbatim>\<open>for\<close> with the
  number of iterations done, at the \<^verbatim>\<open>if\<close> after the \<^verbatim>\<open>for\<close>, between that test and
  the call of \<^verbatim>\<open>refresh_cookies\<close>, and after the last statement.
\<close>

datatype wpc =
    AtStart
  | WhileTest
  | ForLoop nat
  | AfterFor
  | Refreshing
  | Finished

text \<open>
  What a step of the worker does: a line printed, a read of \<^verbatim>\<open>_stop_refresh\<close> with the
  value read, \<^verbatim>\<open>time.sleep\<close> with its seconds, and a call of \<^verbatim>\<open>refresh_cookies\<close>.
\<close>

datatype wevent =
    WPrint msg
  | WCheckStop bool
  | WSleep nat
  | WRefresh

text \<open>
  One step of the worker, given the value \<^verbatim>\<open>_stop_refresh\<close> has when the step reads
  it. The value \<^verbatim>\<open>refresh_cookies\<close> returns is dropped by the loop.
\<close>

fun worker_step :: "bool \<Rightarrow> wpc \<Rightarrow> wpc \<times> wevent list" where
  "worker_step stop AtStart =
     (WhileTest, [WPrint (MsgLoopStarting (REFRESH_INTERVAL div 3600)), WRefresh])"
| "worker_step stop WhileTest =
     (if stop then (Finished, [WCheckStop True, WPrint MsgLoopStopped])
      else (ForLoop 0, [WCheckStop False]))"
| "worker_step stop (ForLoop i) =
     (if i < REFRESH_INTERVAL div 60
      then (if stop then (AfterFor, [WCheckStop True])
            else (ForLoop (Suc i), [WCheckStop False, WSleep 60]))
      else (AfterFor, []))"
| "worker_step stop AfterFor =
     (if stop then (WhileTest, [WCheckStop True])
      else (Refreshing, [WCheckStop False, WPrint MsgScheduledRefresh]))"
| "worker_step stop Refreshing = (WhileTest, [WRefresh])"
| "worker_step stop Finished = (Finished, [])"

text \<open>
  The worker on its own, against the values of the flag over time: \<open>flag k\<close> is what the
  step numbered \<open>k\<close> reads.
\<close>

fun worker_run :: "(nat \<Rightarrow> bool) \<Rightarrow> nat \<Rightarrow> wpc \<times> wevent list" where
  "worker_run flag 0 = (AtStart, [])"
| "worker_run flag (Suc n) =
     (case worker_run flag n of
        (pc, tr) \<Rightarrow> (case worker_step (flag n) pc of (pc', evs) \<Rightarrow> (pc', tr @ evs)))"

text \<open>
  A \<^verbatim>\<open>threading.Thread\<close> object: created but not started, or started and at a control
  point of the loop. \<^verbatim>\<open>is_alive()\<close> holds from the start to the end of the loop.
\<close>

datatype thread =
    Unstarted
  | Running wpc

fun is_alive :: "thread \<Rightarrow> bool" where
  "is_alive Unstarted = False"
| "is_alive (Running pc) = (pc \<noteq> Finished)"

text \<open>What the process has done, in order, seen from outside.\<close>

datatype sevent =
    Said msg
  | Checked bool
  | Slept nat
  | Refreshed bool "event list"
  | Spawned nat
  | Joined nat nat

text \<open>
  The module's globals \<^verbatim>\<open>_refresh_thread\<close> (a thread by its number) and
  \<^verbatim>\<open>_stop_refresh\<close>, every thread object created so far, the store file, and the trace.
\<close>

record system =
  refresh_thread :: "nat option"
  stop_refresh :: bool
  threads :: "thread list"
  store :: fnode
  trace :: "sevent list"

definition initial :: "fnode \<Rightarrow> system" where
  "initial file =
     \<lparr>refresh_thread = None, stop_refresh = False, threads = [], store = file, trace = []\<rparr>"

definition thread_at :: "system \<Rightarrow> nat \<Rightarrow> thread" where
  "thread_at s t = (if t < length (threads s) then threads s ! t else Unstarted)"

text \<open>The guard of line 369.\<close>

definition worker_alive :: "system \<Rightarrow> bool" where
  "worker_alive s = (case refresh_thread s of None \<Rightarrow> False | Some t \<Rightarrow> is_alive (thread_at s t))"

text \<open>
  \<^verbatim>\<open>start_cookie_refresh_loop\<close> (lines 365 to 376). \<open>spawn\<close> is the answer of
  \<^verbatim>\<open>Thread.start()\<close>, which raises when the system has no thread to give.
\<close>

definition start_cookie_refresh_loop :: "exn option \<Rightarrow> system \<Rightarrow> system \<times> exn option" where
  "start_cookie_refresh_loop spawn s =
     (if worker_alive s
      then (s\<lparr>trace := trace s @ [Said MsgAlreadyRunning]\<rparr>, None)
      else
        (case spawn of
           Some e \<Rightarrow>
             (s\<lparr>stop_refresh := False, refresh_thread := Some (length (threads s)),
                threads := threads s @ [Unstarted]\<rparr>, Some e)
         | None \<Rightarrow>
             (s\<lparr>stop_refresh := False, refresh_thread := Some (length (threads s)),
                threads := threads s @ [Running AtStart],
                trace := trace s @ [Spawned (length (threads s)), Said MsgLoopStarted]\<rparr>, None)))"

text \<open>A worker event as it appears in the trace, with the outcome of the refresh it ran.\<close>

fun seen :: "bool \<Rightarrow> event list \<Rightarrow> wevent \<Rightarrow> sevent" where
  "seen ok evs (WPrint m) = Said m"
| "seen ok evs (WCheckStop v) = Checked v"
| "seen ok evs (WSleep n) = Slept n"
| "seen ok evs WRefresh = Refreshed ok evs"

text \<open>
  One step of the worker thread \<open>t\<close> inside the process: it reads the flag as it is now,
  and a call of \<^verbatim>\<open>refresh_cookies\<close> runs against the answers \<open>b\<close> and the store.
\<close>

definition work ::
  "(string \<Rightarrow> string option) \<Rightarrow> (persisted list \<Rightarrow> string) \<Rightarrow> nat \<Rightarrow> responses \<Rightarrow> system
     \<Rightarrow> system" where
  "work getenv dumps t b s =
     (case thread_at s t of
        Unstarted \<Rightarrow> s
      | Running pc \<Rightarrow>
          (case worker_step (stop_refresh s) pc of
             (pc', wevs) \<Rightarrow>
               (case refresh_cookies getenv dumps b (store s) of
                  (ok, evs, file') \<Rightarrow>
                    s\<lparr>threads := (threads s)[t := Running pc'],
                      store := (if WRefresh \<in> set wevs then file' else store s),
                      trace := trace s @ map (seen ok evs) wevs\<rparr>)))"

text \<open>The steps one worker thread takes in a row, one answer of the collaborators for each.\<close>

fun work_steps ::
  "(string \<Rightarrow> string option) \<Rightarrow> (persisted list \<Rightarrow> string) \<Rightarrow> nat \<Rightarrow> responses list
     \<Rightarrow> system \<Rightarrow> system" where
  "work_steps getenv dumps t [] s = s"
| "work_steps getenv dumps t (b # bs) s = work_steps getenv dumps t bs (work getenv dumps t b s)"

text \<open>
  \<^verbatim>\<open>stop_cookie_refresh_loop\<close> (lines 379 to 386). It sets the flag. \<^verbatim>\<open>join\<close> raises on
  a thread that was never started; otherwise the caller waits in it for the thread, for
  at most 5 seconds, while the worker goes on: \<open>during\<close> holds the steps the worker
  takes before the join returns (none when the time runs out first). The line of stop
  is printed after the join has returned.
\<close>

definition stop_cookie_refresh_loop ::
  "(string \<Rightarrow> string option) \<Rightarrow> (persisted list \<Rightarrow> string) \<Rightarrow> responses list \<Rightarrow> system
     \<Rightarrow> system \<times> exn option" where
  "stop_cookie_refresh_loop getenv dumps during s =
     (case refresh_thread s of
        None \<Rightarrow> (s\<lparr>stop_refresh := True\<rparr>, None)
      | Some t \<Rightarrow>
          (case thread_at s t of
             Unstarted \<Rightarrow>
               (s\<lparr>stop_refresh := True\<rparr>,
                Some (External ''cannot join thread before it is started''))
           | Running pc \<Rightarrow>
               (case work_steps getenv dumps t during (s\<lparr>stop_refresh := True\<rparr>) of
                  s' \<Rightarrow> (s'\<lparr>trace := trace s' @ [Joined t 5, Said MsgStopRequested]\<rparr>, None))))"

text \<open>
  The process as interleaved actions: a call of start, a call of stop with what the
  worker does while it waits, or a step of a worker thread. An exception of start or
  stop goes to its caller; the globals stay as the call left them.
\<close>

datatype action =
    Start "exn option"
  | Stop "responses list"
  | Work nat responses

fun act ::
  "(string \<Rightarrow> string option) \<Rightarrow> (persisted list \<Rightarrow> string) \<Rightarrow> action \<Rightarrow> system \<Rightarrow> system" where
  "act getenv dumps (Start spawn) s = fst (start_cookie_refresh_loop spawn s)"
| "act getenv dumps (Stop during) s = fst (stop_cookie_refresh_loop getenv dumps during s)"
| "act getenv dumps (Work t b) s = work getenv dumps t b s"

fun run ::
  "(string \<Rightarrow> string option) \<Rightarrow> (persisted list \<Rightarrow> string) \<Rightarrow> action list \<Rightarrow> system \<Rightarrow> system" where
  "run getenv dumps [] s = s"
| "run getenv dumps (a # as) s = run getenv dumps as (act getenv dumps a s)"

text \<open>The refreshes begun so far, and the worker threads alive.\<close>

fun is_refresh :: "sevent \<Rightarrow> bool" where
  "is_refresh (Refreshed ok evs) = True"
| "is_refresh e = False"

definition refreshes :: "system \<Rightarrow> nat" where
  "refreshes s = length (filter is_refresh (trace s))"

definition live_workers :: "system \<Rightarrow> nat" where
  "live_workers s = length (filter is_alive (threads s))"

section \<open>Reading a trace\<close>

text \<open>
  The steps of a refresh that go beyond acquiring and releasing the browser: a
  navigation, a wait, a form action, a read of the page or of the cookies, a pause, and
  the opening of the store for writing.
\<close>

fun beyond_acquire :: "event \<Rightarrow> bool" where
  "beyond_acquire (Print m) = False"
| "beyond_acquire (Call PlaywrightStart) = False"
| "beyond_acquire (Call Launch) = False"
| "beyond_acquire (Call NewContext) = False"
| "beyond_acquire (Call NewPage) = False"
| "beyond_acquire (Call SetExtraHeaders) = False"
| "beyond_acquire (Call PageClose) = False"
| "beyond_acquire (Call BrowserClose) = False"
| "beyond_acquire e = True"





section \<open>A session in which every collaborator answers well\<close>

definition ok_session :: responses where
  "ok_session =
     \<lparr>loop_run = None, pw_start = None, launch = None, new_context = None, new_page = None,
      set_headers = None, goto_login = None, wait_email = None, fill_email = (\<lambda>txt. None),
      click_email_next = None, wait_password = None, fill_password = (\<lambda>txt. None),
      click_password_next = None, wait_login_done = None,
      page_url = ''https://myaccount.google.com/'',
      page_content = Inr ''<html></html>'',
      goto_youtube = None, wait_account = None, query_sign_in = Inr False,
      read_cookies =
        Inr [[(''name'', PStr ''SID''), (''value'', PStr ''abc''),
              (''domain'', PStr ''.google.com'')]],
      fs_write = WriteOk, page_close = None, browser_close = None\<rparr>"

definition ok_env :: "string \<Rightarrow> string option" where
  "ok_env k =
     (if k = ''YOUTUBE_EMAIL'' then Some ''user@example.com''
      else if k = ''YOUTUBE_PASSWORD'' then Some ''hunter2''
      else None)"


section \<open>Reading the worker\<close>

text \<open>The worker from a control point on, while the flag keeps one value.\<close>

fun nsteps :: "bool \<Rightarrow> wpc \<Rightarrow> nat \<Rightarrow> wpc \<times> wevent list" where
  "nsteps stop pc 0 = (pc, [])"
| "nsteps stop pc (Suc n) =
     (case worker_step stop pc of
        (pc', evs) \<Rightarrow> (case nsteps stop pc' n of (pc'', tr) \<Rightarrow> (pc'', evs @ tr)))"

text \<open>
  What the worker does between two refreshes when nobody cancels: the test of the
  \<^verbatim>\<open>while\<close>, one read of the flag and one sleep of a minute for every minute of the
  interval, and the test after the \<^verbatim>\<open>for\<close> that lets the refresh run.
\<close>

definition tick :: "wevent list" where
  "tick = [WCheckStop False, WSleep 60]"

definition cycle :: "wevent list" where
  "cycle =
     [WCheckStop False] @ concat (replicate (REFRESH_INTERVAL div 60) tick) @
     [WCheckStop False, WPrint MsgScheduledRefresh, WRefresh]"

text \<open>
  Once the flag is set: how many steps the worker still takes, and whether it is at a
  point from which the call of \<^verbatim>\<open>refresh_cookies\<close> comes before the next read of the
  flag.
\<close>

fun steps_left :: "wpc \<Rightarrow> nat" where
  "steps_left Finished = 0"
| "steps_left WhileTest = 1"
| "steps_left AfterFor = 2"
| "steps_left (ForLoop i) = 3"
| "steps_left AtStart = 2"
| "steps_left Refreshing = 2"

fun committed :: "wpc \<Rightarrow> nat" where
  "committed AtStart = 1"
| "committed Refreshing = 1"
| "committed pc = 0"

text \<open>The steps of one worker thread, one answer of the collaborators for each.\<close>

definition works :: "nat \<Rightarrow> responses list \<Rightarrow> action list" where
  "works t bs = map (Work t) bs"

text \<open>
  The shape of the globals: every thread object but the last created is dead, and
  \<^verbatim>\<open>_refresh_thread\<close> is the last created.
\<close>

definition sched_inv :: "system \<Rightarrow> bool" where
  "sched_inv s =
     (case refresh_thread s of
        None \<Rightarrow> threads s = []
      | Some t \<Rightarrow> length (threads s) = Suc t \<and> (\<forall>x\<in>set (butlast (threads s)). \<not> is_alive x))"


text \<open>
  A session in which the fill of the password field fails and the exception names the
  call with what was typed, as the call log of the browser driver does.
\<close>

definition leaky_session :: responses where
  "leaky_session =
     ok_session\<lparr>fill_password :=
       (\<lambda>txt. Some (External (''Page.fill: Timeout 60000ms exceeded. Call log: fill('' @ txt @ '')'')))\<rparr>"

section \<open>The specification's reading of the login outcome\<close>


section \<open>Reading the store back\<close>

text \<open>
  \<^verbatim>\<open>json.load\<close> reads back what \<^verbatim>\<open>json.dump\<close> wrote: a list with one entry for every
  cookie dumped.
\<close>

definition reads_back :: "(string \<Rightarrow> exn + pyval) \<Rightarrow> (persisted list \<Rightarrow> string) \<Rightarrow> bool" where
  "reads_back loads dumps =
     (\<forall>ys. \<exists>vs. loads (dumps ys) = Inr (PList vs) \<and> length vs = length ys)"

section \<open>The specification's reading of the store check\<close>

text \<open>
  The specification's \<open>isValid\<close>, word for word: the file exists, parses as well-formed
  structured data, and the resulting sequence is non-empty. A sequence is a JSON array.
\<close>

definition spec_is_valid :: "(string \<Rightarrow> exn + pyval) \<Rightarrow> fnode \<Rightarrow> bool" where
  "spec_is_valid loads file =
     (case file of
        Content s \<Rightarrow> (case loads s of Inr (PList vs) \<Rightarrow> vs \<noteq> [] | _ \<Rightarrow> False)
      | _ \<Rightarrow> False)"

section \<open>Substrings\<close>

lemma str_in_iff: "str_in p s \<longleftrightarrow> (\<exists>a b. s = a @ p @ b)"
proof (induction s)
  case Nil
  then show ?case by auto
next
  case (Cons c cs)
  show ?case
  proof
    assume "str_in p (c # cs)"
    then consider "prefix p (c # cs)" | "str_in p cs" by auto
    then show "\<exists>a b. c # cs = a @ p @ b"
    proof cases
      case 1
      then obtain b where "c # cs = p @ b" by (auto simp: prefix_def)
      then have "c # cs = [] @ p @ b" by simp
      then show ?thesis by blast
    next
      case 2
      with Cons obtain a b where "cs = a @ p @ b" by auto
      then have "c # cs = (c # a) @ p @ b" by simp
      then show ?thesis by blast
    qed
  next
    assume "\<exists>a b. c # cs = a @ p @ b"
    then obtain a b where ab: "c # cs = a @ p @ b" by auto
    show "str_in p (c # cs)"
    proof (cases a)
      case Nil
      with ab have "prefix p (c # cs)" by (simp add: prefix_def)
      then show ?thesis by simp
    next
      case (Cons x a')
      with ab have "cs = a' @ p @ b" by simp
      with Cons.IH have "str_in p cs" by blast
      then show ?thesis by simp
    qed
  qed
qed

section \<open>The store check: results\<close>

lemma check_cookies_file_Content:
  "check_cookies_file loads (Content s) =
     (case loads s of Inl e \<Rightarrow> False
      | Inr v \<Rightarrow> (case py_len v of Inl e \<Rightarrow> False | Inr n \<Rightarrow> 0 < n))"
  by (simp add: check_cookies_file_def check_body_def split: sum.splits)

lemma check_cookies_file_Absent: "check_cookies_file loads Absent = False"
  by (simp add: check_cookies_file_def check_body_def)

lemma check_cookies_file_Unreadable: "check_cookies_file loads (Unreadable e) = False"
  by (simp add: check_cookies_file_def check_body_def)

lemma py_len_PDict_Cons: "\<exists>n. py_len (PDict (kv # kvs)) = Inr (Suc n)"
proof -
  have "map fst (kv # kvs) \<noteq> []" by simp
  then have "remdups (map fst (kv # kvs)) \<noteq> []"
    by (simp only: remdups_eq_nil_iff not_False_eq_True)
  then obtain n where "length (remdups (map fst (kv # kvs))) = Suc n"
    by (cases "remdups (map fst (kv # kvs))") simp_all
  then show ?thesis by (simp only: py_len.simps) simp
qed

text \<open>
  C8, as the code has it: \<^verbatim>\<open>check_cookies_file\<close> returns true if and only if the file
  exists, \<^verbatim>\<open>json.load\<close> parses it, and the value parsed has a length that is positive
  (an array, an object or a string). On a missing file, on a file holding the empty
  array and on a file that does not parse it returns false, and an exception of the
  body (opening, reading, parsing, taking the length) gives false.
\<close>

theorem check_cookies_file_iff:
  "(check_cookies_file loads f \<longleftrightarrow>
      (\<exists>s v n. f = Content s \<and> loads s = Inr v \<and> py_len v = Inr n \<and> 0 < n))
   \<and> check_cookies_file loads Absent = False
   \<and> (loads s = Inr (PList []) \<longrightarrow> check_cookies_file loads (Content s) = False)
   \<and> (loads s = Inl e \<longrightarrow> check_cookies_file loads (Content s) = False)
   \<and> (check_body loads f = Inl e \<longrightarrow> check_cookies_file loads f = False)"
proof -
  have "check_cookies_file loads f \<longleftrightarrow>
      (\<exists>s v n. f = Content s \<and> loads s = Inr v \<and> py_len v = Inr n \<and> 0 < n)"
    by (cases f)
      (auto simp: check_cookies_file_Content check_cookies_file_Absent
         check_cookies_file_Unreadable split: sum.splits)
  moreover have "check_body loads f = Inl e \<longrightarrow> check_cookies_file loads f = False"
    by (simp add: check_cookies_file_def)
  ultimately show ?thesis
    by (simp add: check_cookies_file_Content check_cookies_file_Absent)
qed

text \<open>
  The theorem at a file holding an array of one cookie, and at a file that does not
  parse.
\<close>

theorem check_cookies_file_iff_witness:
  "check_cookies_file
     (\<lambda>s. if s = ''[{}]'' then Inr (PList [PDict []]) else Inl (External ''JSONDecodeError''))
     (Content ''[{}]'') = True
   \<and> check_cookies_file
     (\<lambda>s. if s = ''[{}]'' then Inr (PList [PDict []]) else Inl (External ''JSONDecodeError''))
     (Content ''[{'') = False"
  using check_cookies_file_iff
    [of "\<lambda>s. if s = ''[{}]'' then Inr (PList [PDict []]) else Inl (External ''JSONDecodeError'')"
        "Content ''[{}]''" "''[{''" "External ''JSONDecodeError''"]
  by simp

text \<open>
  C8 as the specification words it fails: a file holding a JSON object with one key is
  no sequence, and the check returns true on it.
\<close>

theorem check_cookies_file_counterexample:
  "check_cookies_file
     (\<lambda>s. if s = ''{\"k\": 1}'' then Inr (PDict [(''k'', PNum 1)])
           else Inl (External ''JSONDecodeError''))
     (Content ''{\"k\": 1}'') = True
   \<and> spec_is_valid
     (\<lambda>s. if s = ''{\"k\": 1}'' then Inr (PDict [(''k'', PNum 1)])
           else Inl (External ''JSONDecodeError''))
     (Content ''{\"k\": 1}'') = False"
  by (simp add: check_cookies_file_Content spec_is_valid_def)

text \<open>
  C10: \<^verbatim>\<open>check_cookies_file\<close> returns true for any file whose contents parse to a
  top-level value of positive length: a non-empty object, a non-empty string, and an
  array with a first element of any shape. Nothing about the elements is looked at.
\<close>

theorem check_cookies_file_any_sized_value:
  "(loads s = Inr v \<and> py_len v = Inr n \<and> 0 < n \<longrightarrow> check_cookies_file loads (Content s))
   \<and> (loads s = Inr (PDict (kv # kvs)) \<longrightarrow> check_cookies_file loads (Content s))
   \<and> (loads s = Inr (PStr (c # cs)) \<longrightarrow> check_cookies_file loads (Content s))
   \<and> (loads s = Inr (PList (x # xs)) \<longrightarrow> check_cookies_file loads (Content s))"
proof -
  obtain m where "py_len (PDict (kv # kvs)) = Inr (Suc m)"
    using py_len_PDict_Cons by blast
  then show ?thesis
    by (simp add: check_cookies_file_Content del: py_len.simps(3))
qed

text \<open>The theorem at a file holding the JSON string \<^verbatim>\<open>"no cookies here"\<close>.\<close>

theorem check_cookies_file_any_sized_value_witness:
  "check_cookies_file
     (\<lambda>s. if s = ''\"no cookies here\"'' then Inr (PStr ''no cookies here'')
           else Inl (External ''JSONDecodeError''))
     (Content ''\"no cookies here\"'') = True"
  using check_cookies_file_any_sized_value
    [of "\<lambda>s. if s = ''\"no cookies here\"'' then Inr (PStr ''no cookies here'')
              else Inl (External ''JSONDecodeError'')"
        "''\"no cookies here\"''" "PStr ''no cookies here''" 15]
  by simp

section \<open>Cookie extraction: results\<close>

lemma any_domain_True:
  "any_domain ds c = Inr True \<Longrightarrow>
     \<exists>v. subscript c ''domain'' = Inr v \<and> (\<exists>t\<in>set ds. py_in t v = Inr True)"
proof (induction ds)
  case Nil
  then show ?case by simp
next
  case (Cons d ds)
  then show ?case
    by (auto split: sum.splits bool.splits)
qed

lemma convert_fields:
  "convert c = Inr p \<Longrightarrow>
     subscript c ''name'' = Inr (c_name p) \<and> subscript c ''value'' = Inr (c_value p) \<and>
     subscript c ''domain'' = Inr (c_domain p) \<and>
     c_path p = dict_get c ''path'' (PStr ''/'') \<and>
     c_expires p = dict_get c ''expires'' (PNum (- 1)) \<and>
     c_httpOnly p = dict_get c ''httpOnly'' (PBool False) \<and>
     c_secure p = dict_get c ''secure'' (PBool False) \<and>
     c_sameSite p = dict_get c ''sameSite'' (PStr ''no_restriction'')"
  by (auto simp: convert_def split: sum.splits)

lemma youtube_cookies_member:
  "youtube_cookies cookies = Inr ys \<Longrightarrow> p \<in> set ys \<Longrightarrow>
     \<exists>c\<in>set cookies. any_domain target_domains c = Inr True \<and> convert c = Inr p"
proof (induction cookies arbitrary: ys)
  case Nil
  then show ?case by simp
next
  case (Cons c cs)
  show ?case
  proof (cases "any_domain target_domains c")
    case (Inl e)
    with Cons.prems show ?thesis by simp
  next
    case (Inr hit)
    show ?thesis
    proof (cases hit)
      case False
      with Inr Cons.prems have "youtube_cookies cs = Inr ys" by simp
      from Cons.IH[OF this Cons.prems(2)] show ?thesis by auto
    next
      case True
      with Inr Cons.prems obtain q qs where
        q: "convert c = Inr q" and qs: "youtube_cookies cs = Inr qs" and ys: "ys = q # qs"
        by (auto split: sum.splits)
      show ?thesis
      proof (cases "p = q")
        case True
        with q Inr \<open>hit\<close> show ?thesis by auto
      next
        case False
        with ys Cons.prems(2) have "p \<in> set qs" by simp
        from Cons.IH[OF qs this] show ?thesis by auto
      qed
    qed
  qed
qed

text \<open>
  C9: every entry of \<^verbatim>\<open>youtube_cookies\<close>, the list handed to \<^verbatim>\<open>json.dump\<close>, is the
  conversion of a cookie read from the browser whose domain contains one of the target
  domains (as a substring, when the domain is a string); its expiry is the cookie's, or
  \<open>-1\<close> when the cookie has none, and its same-site policy is the cookie's, or
  \<^verbatim>\<open>no_restriction\<close> when the cookie has none.
\<close>

theorem persisted_cookies_target_domain_and_defaults:
  assumes "youtube_cookies cookies = Inr ys" and "p \<in> set ys"
  shows "\<exists>c\<in>set cookies.
           convert c = Inr p
           \<and> (\<exists>t\<in>set target_domains. py_in t (c_domain p) = Inr True)
           \<and> (\<forall>d. c_domain p = PStr d \<longrightarrow> (\<exists>t\<in>set target_domains. str_in t d))
           \<and> c_expires p = (case map_of c ''expires'' of None \<Rightarrow> PNum (- 1) | Some v \<Rightarrow> v)
           \<and> c_sameSite p =
               (case map_of c ''sameSite'' of None \<Rightarrow> PStr ''no_restriction'' | Some v \<Rightarrow> v)"
proof -
  from youtube_cookies_member[OF assms] obtain c where
    c: "c \<in> set cookies" and hit: "any_domain target_domains c = Inr True"
    and conv: "convert c = Inr p" by blast
  from any_domain_True[OF hit] obtain v t where
    v: "subscript c ''domain'' = Inr v" and t: "t \<in> set target_domains" "py_in t v = Inr True"
    by blast
  from convert_fields[OF conv] v have dom: "c_domain p = v" by simp
  have 1: "\<exists>t\<in>set target_domains. py_in t (c_domain p) = Inr True"
    using t dom by blast
  have 2: "\<forall>d. c_domain p = PStr d \<longrightarrow> (\<exists>t\<in>set target_domains. str_in t d)"
    using t dom by auto
  have 3: "c_expires p = (case map_of c ''expires'' of None \<Rightarrow> PNum (- 1) | Some v \<Rightarrow> v)"
    using convert_fields[OF conv] by (simp add: dict_get_def)
  have 4: "c_sameSite p =
               (case map_of c ''sameSite'' of None \<Rightarrow> PStr ''no_restriction'' | Some v \<Rightarrow> v)"
    using convert_fields[OF conv] by (simp add: dict_get_def)
  from c conv 1 2 3 4 show ?thesis by blast
qed

text \<open>
  The theorem at a session with one Google cookie that has neither an expiry nor a
  same-site policy, and one cookie of another site, which is dropped.
\<close>

theorem persisted_cookies_target_domain_and_defaults_witness:
  "youtube_cookies
     [[(''name'', PStr ''SID''), (''value'', PStr ''abc''), (''domain'', PStr ''.google.com'')],
      [(''name'', PStr ''x''), (''value'', PStr ''y''), (''domain'', PStr ''example.org'')]]
   = Inr [\<lparr>c_name = PStr ''SID'', c_value = PStr ''abc'', c_domain = PStr ''.google.com'',
           c_path = PStr ''/'', c_expires = PNum (- 1), c_httpOnly = PBool False,
           c_secure = PBool False, c_sameSite = PStr ''no_restriction''\<rparr>]
   \<and> (\<exists>c\<in>set [[(''name'', PStr ''SID''), (''value'', PStr ''abc''),
                 (''domain'', PStr ''.google.com'')],
                [(''name'', PStr ''x''), (''value'', PStr ''y''),
                 (''domain'', PStr ''example.org'')]].
         convert c = Inr \<lparr>c_name = PStr ''SID'', c_value = PStr ''abc'',
                          c_domain = PStr ''.google.com'', c_path = PStr ''/'',
                          c_expires = PNum (- 1), c_httpOnly = PBool False,
                          c_secure = PBool False, c_sameSite = PStr ''no_restriction''\<rparr>)"
proof -
  have run: "youtube_cookies
     [[(''name'', PStr ''SID''), (''value'', PStr ''abc''), (''domain'', PStr ''.google.com'')],
      [(''name'', PStr ''x''), (''value'', PStr ''y''), (''domain'', PStr ''example.org'')]]
   = Inr [\<lparr>c_name = PStr ''SID'', c_value = PStr ''abc'', c_domain = PStr ''.google.com'',
           c_path = PStr ''/'', c_expires = PNum (- 1), c_httpOnly = PBool False,
           c_secure = PBool False, c_sameSite = PStr ''no_restriction''\<rparr>]"
    by (simp add: target_domains_def subscript_def convert_def dict_get_def)
  from persisted_cookies_target_domain_and_defaults[OF run, of
      "\<lparr>c_name = PStr ''SID'', c_value = PStr ''abc'', c_domain = PStr ''.google.com'',
        c_path = PStr ''/'', c_expires = PNum (- 1), c_httpOnly = PBool False,
        c_secure = PBool False, c_sameSite = PStr ''no_restriction''\<rparr>"]
  have "\<exists>c\<in>set [[(''name'', PStr ''SID''), (''value'', PStr ''abc''),
                 (''domain'', PStr ''.google.com'')],
                [(''name'', PStr ''x''), (''value'', PStr ''y''),
                 (''domain'', PStr ''example.org'')]].
         convert c = Inr \<lparr>c_name = PStr ''SID'', c_value = PStr ''abc'',
                          c_domain = PStr ''.google.com'', c_path = PStr ''/'',
                          c_expires = PNum (- 1), c_httpOnly = PBool False,
                          c_secure = PBool False, c_sameSite = PStr ''no_restriction''\<rparr>"
    by fastforce
  with run show ?thesis by blast
qed

section \<open>One refresh: results\<close>

subsection \<open>Straight-line bodies\<close>

lemma attempt_events: "attempt xs = (evs, r) \<Longrightarrow> set evs \<subseteq> fst ` set xs"
proof (induction xs arbitrary: evs r rule: attempt.induct)
  case 1
  then show ?case by simp
next
  case (2 c e rest)
  then show ?case by auto
next
  case (3 c rest)
  then show ?case by (auto split: prod.splits)
qed

lemma attempt_None:
  "attempt xs = (evs, None) \<Longrightarrow> evs = map fst xs \<and> (\<forall>x\<in>set xs. snd x = None)"
proof (induction xs arbitrary: evs rule: attempt.induct)
  case 1
  then show ?case by simp
next
  case (2 c e rest)
  then show ?case by simp
next
  case (3 c rest)
  then show ?case by (auto split: prod.splits)
qed



subsection \<open>Acquiring and releasing the browser\<close>

lemma start_browser_events:
  "start_browser b = (m, evs, r) \<Longrightarrow> e \<in> set evs \<Longrightarrow> \<not> beyond_acquire e \<and> e \<noteq> OpenForWrite"
proof -
  assume sb: "start_browser b = (m, evs, r)" and e: "e \<in> set evs"
  obtain evs0 r0 where a: "attempt [(Call PlaywrightStart, pw_start b), (Call Launch, launch b),
                       (Call NewContext, new_context b), (Call NewPage, new_page b),
                       (Call SetExtraHeaders, set_headers b)] = (evs0, r0)"
    by (cases "attempt [(Call PlaywrightStart, pw_start b), (Call Launch, launch b),
                       (Call NewContext, new_context b), (Call NewPage, new_page b),
                       (Call SetExtraHeaders, set_headers b)]") blast
  from attempt_events[OF a] have sub: "set evs0 \<subseteq> {Call PlaywrightStart, Call Launch, Call NewContext,
     Call NewPage, Call SetExtraHeaders}" by simp
  from sb a have "set evs \<subseteq> set evs0 \<union> range Print"
    by (auto simp: start_browser_def Let_def split: option.splits)
  with sub e have "e \<in> {Call PlaywrightStart, Call Launch, Call NewContext,
     Call NewPage, Call SetExtraHeaders} \<union> range Print" by blast
  then show ?thesis by auto
qed

lemma start_browser_ok:
  "start_browser b = (m, evs, None) \<Longrightarrow>
     evs = [Call PlaywrightStart, Call Launch, Call NewContext, Call NewPage, Call SetExtraHeaders]
     \<and> m = \<lparr>has_browser = True, has_page = True\<rparr>"
proof -
  assume sb: "start_browser b = (m, evs, None)"
  obtain evs0 r0 where a: "attempt [(Call PlaywrightStart, pw_start b), (Call Launch, launch b),
                       (Call NewContext, new_context b), (Call NewPage, new_page b),
                       (Call SetExtraHeaders, set_headers b)] = (evs0, r0)"
    by (cases "attempt [(Call PlaywrightStart, pw_start b), (Call Launch, launch b),
                       (Call NewContext, new_context b), (Call NewPage, new_page b),
                       (Call SetExtraHeaders, set_headers b)]") blast
  from sb a have r0: "r0 = None" and evs: "evs = evs0"
    and m: "m = \<lparr>has_browser = (pw_start b = None \<and> launch b = None),
               has_page = (pw_start b = None \<and> launch b = None \<and> new_context b = None
                           \<and> new_page b = None)\<rparr>"
    by (auto simp: start_browser_def Let_def split: option.splits)
  from attempt_None[OF a[unfolded r0]] evs m show ?thesis by simp
qed

lemma start_browser_launch:
  "pw_start b = None \<Longrightarrow> Call Launch \<in> set (fst (snd (start_browser b)))"
  by (cases "launch b") (auto simp: start_browser_def Let_def split: prod.splits option.splits)

lemma close_browser_events:
  "close_browser b m = (evs, r) \<Longrightarrow> e \<in> set evs \<Longrightarrow> \<not> beyond_acquire e \<and> e \<noteq> OpenForWrite"
proof -
  assume cb: "close_browser b m = (evs, r)" and e: "e \<in> set evs"
  let ?xs = "(if has_page m then [(Call PageClose, page_close b)] else []) @
             (if has_browser m then [(Call BrowserClose, browser_close b)] else [])"
  obtain evs0 r0 where a: "attempt ?xs = (evs0, r0)" by (cases "attempt ?xs") blast
  from attempt_events[OF a] have sub: "set evs0 \<subseteq> {Call PageClose, Call BrowserClose}" by auto
  from cb a have "set evs \<subseteq> set evs0 \<union> range Print"
    by (auto simp: close_browser_def split: option.splits)
  with sub e have "e \<in> {Call PageClose, Call BrowserClose} \<union> range Print" by blast
  then show ?thesis by auto
qed

lemma close_browser_no_raise: "snd (close_browser b m) = None"
  by (simp add: close_browser_def split: prod.splits option.splits)




subsection \<open>Missing credentials\<close>

lemma perform_missing:
  "falsy (getenv ''YOUTUBE_EMAIL'') \<or> falsy (getenv ''YOUTUBE_PASSWORD'') \<Longrightarrow>
     perform_login_and_save_cookies getenv dumps b f = (False, [Print MsgMissingCredentials], f)"
  by (simp add: perform_login_and_save_cookies_def)

text \<open>
  C1, as the code has it: when \<^verbatim>\<open>YOUTUBE_EMAIL\<close> or \<^verbatim>\<open>YOUTUBE_PASSWORD\<close> is unset
  (or empty), \<^verbatim>\<open>refresh_cookies\<close> returns false, leaves the store as it was, and
  takes no step beyond acquiring and releasing the browser: no navigation, no form
  action, no read of the cookies, no write. The browser itself is acquired before the
  credentials are read: the launch is attempted whenever the event loop runs and the
  Playwright driver starts.
\<close>

theorem refresh_without_credentials:
  assumes "falsy (getenv ''YOUTUBE_EMAIL'') \<or> falsy (getenv ''YOUTUBE_PASSWORD'')"
  shows "fst (refresh_cookies getenv dumps b f) = False
       \<and> snd (snd (refresh_cookies getenv dumps b f)) = f
       \<and> filter beyond_acquire (fst (snd (refresh_cookies getenv dumps b f))) = []
       \<and> (loop_run b = None \<and> pw_start b = None \<longrightarrow>
            Call Launch \<in> set (fst (snd (refresh_cookies getenv dumps b f))))"
proof (cases "loop_run b")
  case (Some e)
  then show ?thesis by (simp add: refresh_cookies_def)
next
  case None
  obtain m evs0 r0 where sb: "start_browser b = (m, evs0, r0)"
    by (cases "start_browser b") auto
  have acq0: "filter beyond_acquire evs0 = []"
    using start_browser_events[OF sb] by (auto simp: filter_empty_conv)
  show ?thesis
  proof (cases r0)
    case (Some e)
    with sb None acq0 start_browser_launch[of b] show ?thesis
      by (auto simp: refresh_cookies_def refresh_cookies_async_def)
  next
    case noexn: None
    obtain evs2 r2 where cb: "close_browser b m = (evs2, r2)"
      by (cases "close_browser b m") auto
    have acq2: "filter beyond_acquire evs2 = []"
      using close_browser_events[OF cb] by (auto simp: filter_empty_conv)
    from cb close_browser_no_raise[of b m] have r2: "r2 = None" by simp
    from sb None noexn cb r2 acq0 acq2 perform_missing[OF assms] start_browser_launch[of b]
    show ?thesis
      by (auto simp: refresh_cookies_def refresh_cookies_async_def)
  qed
qed

text \<open>
  C1 as the specification words it fails: with neither variable set and collaborators
  that answer well, the refresh returns false after launching the browser.
\<close>

theorem refresh_without_credentials_counterexample:
  "refresh_cookies (\<lambda>k. None) (\<lambda>ys. []) ok_session Absent
   = (False,
      [Call PlaywrightStart, Call Launch, Call NewContext, Call NewPage, Call SetExtraHeaders,
       Print MsgMissingCredentials, Print MsgRefreshFailed, Call PageClose, Call BrowserClose],
      Absent)"
  by (simp add: refresh_cookies_def refresh_cookies_async_def start_browser_def close_browser_def
      perform_login_and_save_cookies_def falsy_def ok_session_def)

text \<open>
  The theorem at an environment that sets the identity and not the secret.
\<close>

theorem refresh_without_credentials_witness:
  "falsy ((\<lambda>k. if k = ''YOUTUBE_EMAIL'' then Some ''user@example.com'' else None) ''YOUTUBE_PASSWORD'')
   \<and> loop_run ok_session = None \<and> pw_start ok_session = None
   \<and> fst (refresh_cookies (\<lambda>k. if k = ''YOUTUBE_EMAIL'' then Some ''user@example.com'' else None)
            (\<lambda>ys. []) ok_session (Content ''[]'')) = False
   \<and> snd (snd (refresh_cookies (\<lambda>k. if k = ''YOUTUBE_EMAIL'' then Some ''user@example.com'' else None)
            (\<lambda>ys. []) ok_session (Content ''[]''))) = Content ''[]''
   \<and> Call Launch \<in> set (fst (snd (refresh_cookies
            (\<lambda>k. if k = ''YOUTUBE_EMAIL'' then Some ''user@example.com'' else None)
            (\<lambda>ys. []) ok_session (Content ''[]''))))"
proof -
  have h: "falsy ((\<lambda>k. if k = ''YOUTUBE_EMAIL'' then Some ''user@example.com'' else None) ''YOUTUBE_EMAIL'')
     \<or> falsy ((\<lambda>k. if k = ''YOUTUBE_EMAIL'' then Some ''user@example.com'' else None) ''YOUTUBE_PASSWORD'')"
    by (simp add: falsy_def)
  have s: "loop_run ok_session = None \<and> pw_start ok_session = None"
    by (simp add: ok_session_def)
  note inst = refresh_without_credentials[OF h, of "\<lambda>ys. []" ok_session "Content ''[]''"]
  note l = inst[THEN conjunct2, THEN conjunct2, THEN conjunct2, THEN mp, OF s]
  from inst l s show ?thesis by (simp add: falsy_def)
qed

subsection \<open>Login\<close>

text \<open>The eight awaited steps of the login body before the wait for its result.\<close>

lemma login_steps_events:
  assumes "attempt [(Call (Goto GMAIL_LOGIN_URL (LOGIN_TIMEOUT * 1000)), goto_login b),
                    (Call (WaitForSelector EmailInput (LOGIN_TIMEOUT * 1000)), wait_email b),
                    (Call (Fill EmailInput email), fill_email b email),
                    (Call (Click EmailNext), click_email_next b),
                    (Call (WaitForSelector PasswordInput (LOGIN_TIMEOUT * 1000)), wait_password b),
                    (Pause 2, None),
                    (Call (Fill PasswordInput password), fill_password b password),
                    (Call (Click PasswordNext), click_password_next b)] = (evs, r)"
  shows "OpenForWrite \<notin> set evs"
  using attempt_events[OF assms] by auto

lemma login_no_write: "OpenForWrite \<notin> set (snd (login_to_gmail b email password))"
proof -
  let ?xs = "[(Call (Goto GMAIL_LOGIN_URL (LOGIN_TIMEOUT * 1000)), goto_login b),
                    (Call (WaitForSelector EmailInput (LOGIN_TIMEOUT * 1000)), wait_email b),
                    (Call (Fill EmailInput email), fill_email b email),
                    (Call (Click EmailNext), click_email_next b),
                    (Call (WaitForSelector PasswordInput (LOGIN_TIMEOUT * 1000)), wait_password b),
                    (Pause 2, None),
                    (Call (Fill PasswordInput password), fill_password b password),
                    (Call (Click PasswordNext), click_password_next b)]"
  obtain evs r where a: "attempt ?xs = (evs, r)" by (cases "attempt ?xs") blast
  from login_steps_events[OF a] have "OpenForWrite \<notin> set evs" .
  with a show ?thesis
    by (auto simp: login_to_gmail_def split: option.splits sum.splits prod.splits)
qed

lemma navigate_no_write: "OpenForWrite \<notin> set (snd (navigate_to_youtube b))"
proof -
  let ?xs = "[(Call (Goto YOUTUBE_URL (LOGIN_TIMEOUT * 1000)), goto_youtube b), (Pause 3, None)]"
  obtain evs r where a: "attempt ?xs = (evs, r)" by (cases "attempt ?xs") blast
  from attempt_events[OF a] have "OpenForWrite \<notin> set evs" by auto
  with a show ?thesis
    by (auto simp: navigate_to_youtube_def split: option.splits sum.splits prod.splits)
qed





subsection \<open>The store\<close>

lemma extract_effect:
  assumes "extract_and_save_cookies dumps b f = (r, evs, f')"
  shows "r \<longrightarrow> fs_write b = WriteOk \<and>
           (\<exists>cookies ys. read_cookies b = Inr cookies \<and> youtube_cookies cookies = Inr ys \<and>
              ys \<noteq> [] \<and> f' = Content (dumps ys))"
    and "OpenForWrite \<notin> set evs \<longrightarrow> f' = f"
    and "\<not> r \<and> (\<forall>k e. fs_write b \<noteq> WriteFails k e) \<longrightarrow> f' = f"
    and "f' \<noteq> f \<longrightarrow>
           (\<exists>cookies ys. read_cookies b = Inr cookies \<and> youtube_cookies cookies = Inr ys \<and>
              ys \<noteq> [] \<and>
              (f' = Content (dumps ys) \<or> (\<exists>k e. fs_write b = WriteFails k e \<and>
                 f' = Content (take k (dumps ys)))))"
  using assms
  by (auto simp: extract_and_save_cookies_def
      split: sum.splits if_splits write_outcome.splits)

lemma perform_cases:
  assumes "perform_login_and_save_cookies getenv dumps b f = (r, evs, f')"
  shows "(OpenForWrite \<notin> set evs \<and> \<not> r \<and> f' = f) \<or>
     (\<not> falsy (getenv ''YOUTUBE_EMAIL'') \<and> \<not> falsy (getenv ''YOUTUBE_PASSWORD'') \<and>
      fst (login_to_gmail b (the (getenv ''YOUTUBE_EMAIL'')) (the (getenv ''YOUTUBE_PASSWORD''))) \<and>
      fst (navigate_to_youtube b) \<and>
      (\<exists>pre evs3. extract_and_save_cookies dumps b f = (r, evs3, f') \<and> evs = pre @ evs3 \<and>
         OpenForWrite \<notin> set pre))"
proof (cases "falsy (getenv ''YOUTUBE_EMAIL'') \<or> falsy (getenv ''YOUTUBE_PASSWORD'')")
  case True
  with assms show ?thesis by (auto simp: perform_login_and_save_cookies_def)
next
  case False
  obtain r1 evs1 where l: "login_to_gmail b (the (getenv ''YOUTUBE_EMAIL''))
      (the (getenv ''YOUTUBE_PASSWORD'')) = (r1, evs1)"
    by (cases "login_to_gmail b (the (getenv ''YOUTUBE_EMAIL'')) (the (getenv ''YOUTUBE_PASSWORD''))")
      blast
  obtain r2 evs2 where n: "navigate_to_youtube b = (r2, evs2)"
    by (cases "navigate_to_youtube b") blast
  obtain r3 evs3 f3 where x: "extract_and_save_cookies dumps b f = (r3, evs3, f3)"
    by (cases "extract_and_save_cookies dumps b f") auto
  have w1: "OpenForWrite \<notin> set evs1" using login_no_write[of b] l by (metis snd_conv)
  have w2: "OpenForWrite \<notin> set evs2" using navigate_no_write[of b] n by (metis snd_conv)
  show ?thesis
  proof (cases r1)
    case r1f: False
    with assms False l w1 show ?thesis by (auto simp: perform_login_and_save_cookies_def)
  next
    case r1t: True
    show ?thesis
    proof (cases r2)
      case r2f: False
      with assms False l n r1t w1 w2 show ?thesis
        by (auto simp: perform_login_and_save_cookies_def)
    next
      case r2t: True
      with assms False l n x r1t have "r = r3" "f' = f3" "evs = (evs1 @ evs2) @ evs3"
        by (auto simp: perform_login_and_save_cookies_def)
      moreover have "OpenForWrite \<notin> set (evs1 @ evs2)" using w1 w2 by simp
      ultimately show ?thesis using False l n x r1t r2t by (metis fst_conv)
    qed
  qed
qed

lemma refresh_cases:
  assumes "refresh_cookies getenv dumps b f = (r, evs, f')"
  shows "(OpenForWrite \<notin> set evs \<and> \<not> r \<and> f' = f) \<or>
     (\<not> falsy (getenv ''YOUTUBE_EMAIL'') \<and> \<not> falsy (getenv ''YOUTUBE_PASSWORD'') \<and>
      fst (login_to_gmail b (the (getenv ''YOUTUBE_EMAIL'')) (the (getenv ''YOUTUBE_PASSWORD''))) \<and>
      fst (navigate_to_youtube b) \<and>
      (\<exists>pre evs3 post. extract_and_save_cookies dumps b f = (r, evs3, f') \<and>
         evs = pre @ evs3 @ post \<and> OpenForWrite \<notin> set pre \<and> OpenForWrite \<notin> set post))"
proof (cases "loop_run b")
  case (Some e)
  with assms show ?thesis by (auto simp: refresh_cookies_def)
next
  case None
  obtain m evs0 r0 where sb: "start_browser b = (m, evs0, r0)"
    by (cases "start_browser b") auto
  have w0: "OpenForWrite \<notin> set evs0" using start_browser_events[OF sb] by blast
  show ?thesis
  proof (cases r0)
    case (Some e)
    with assms None sb w0 show ?thesis
      by (auto simp: refresh_cookies_def refresh_cookies_async_def)
  next
    case noexn: None
    obtain r1 evs1 f1 where pf: "perform_login_and_save_cookies getenv dumps b f = (r1, evs1, f1)"
      by (cases "perform_login_and_save_cookies getenv dumps b f") auto
    obtain evs2 r2 where cb: "close_browser b m = (evs2, r2)"
      by (cases "close_browser b m") auto
    from cb close_browser_no_raise[of b m] have r2: "r2 = None" by simp
    have w2: "OpenForWrite \<notin> set evs2" using close_browser_events[OF cb] by blast
    from assms None sb noexn pf cb r2 have res: "r = r1" "f' = f1"
      and evs: "evs = evs0 @ evs1 @ [Print (if r1 then MsgRefreshed else MsgRefreshFailed)] @ evs2"
      by (auto simp: refresh_cookies_def refresh_cookies_async_def)
    from perform_cases[OF pf] show ?thesis
    proof
      assume "OpenForWrite \<notin> set evs1 \<and> \<not> r1 \<and> f1 = f"
      with res evs w0 w2 show ?thesis by auto
    next
      assume a: "\<not> falsy (getenv ''YOUTUBE_EMAIL'') \<and> \<not> falsy (getenv ''YOUTUBE_PASSWORD'') \<and>
        fst (login_to_gmail b (the (getenv ''YOUTUBE_EMAIL'')) (the (getenv ''YOUTUBE_PASSWORD''))) \<and>
        fst (navigate_to_youtube b) \<and>
        (\<exists>pre evs3. extract_and_save_cookies dumps b f = (r1, evs3, f1) \<and> evs1 = pre @ evs3 \<and>
           OpenForWrite \<notin> set pre)"
      then obtain pre evs3 where x: "extract_and_save_cookies dumps b f = (r1, evs3, f1)"
        and e1: "evs1 = pre @ evs3" and wp: "OpenForWrite \<notin> set pre" by blast
      let ?pre = "evs0 @ pre"
      let ?post = "[Print (if r1 then MsgRefreshed else MsgRefreshFailed)] @ evs2"
      have "evs = ?pre @ evs3 @ ?post" using evs e1 by simp
      moreover have "OpenForWrite \<notin> set ?pre" using w0 wp by simp
      moreover have "OpenForWrite \<notin> set ?post" using w2 by simp
      ultimately have "\<exists>pre evs3 post. extract_and_save_cookies dumps b f = (r, evs3, f') \<and>
         evs = pre @ evs3 @ post \<and> OpenForWrite \<notin> set pre \<and> OpenForWrite \<notin> set post"
        using x res by blast
      with a show ?thesis by blast
    qed
  qed
qed

subsection \<open>The outcome of a login\<close>




subsection \<open>The effect of a refresh on the store\<close>

lemma extract_opened:
  assumes "extract_and_save_cookies dumps b f = (r, evs, f')" and "OpenForWrite \<in> set evs"
  shows "\<exists>cookies ys. read_cookies b = Inr cookies \<and> youtube_cookies cookies = Inr ys \<and>
           ys \<noteq> [] \<and>
           (case fs_write b of
              WriteOk \<Rightarrow> r \<and> f' = Content (dumps ys)
            | OpenFails e \<Rightarrow> \<not> r \<and> f' = f
            | WriteFails k e \<Rightarrow> \<not> r \<and> f' = Content (take k (dumps ys)))"
  using assms
  by (auto simp: extract_and_save_cookies_def
      split: sum.splits if_splits write_outcome.splits)

lemma extract_unopened:
  assumes "extract_and_save_cookies dumps b f = (r, evs, f')" and "OpenForWrite \<notin> set evs"
  shows "\<not> r \<and> f' = f"
  using assms
  by (auto simp: extract_and_save_cookies_def
      split: sum.splits if_splits write_outcome.splits)

lemma reads_back_valid:
  "reads_back loads dumps \<Longrightarrow> ys \<noteq> [] \<Longrightarrow> check_cookies_file loads (Content (dumps ys))"
proof -
  assume rb: "reads_back loads dumps" and ne: "ys \<noteq> []"
  from rb obtain vs where "loads (dumps ys) = Inr (PList vs)" and "length vs = length ys"
    unfolding reads_back_def by blast
  with ne show ?thesis by (simp add: check_cookies_file_Content)
qed

text \<open>
  C2, as the code has it: the store is opened for writing only after the credentials
  were found and login and navigation both succeeded, and then a non-empty list of
  target cookies has been extracted. When the file was never opened the refresh returns
  false and the file is as it was. When it was opened, what follows is the write's
  outcome: all of the text written and true returned; or the open failed, false
  returned and the file as it was; or the write failed after the open, false returned
  and only a prefix of the text left in the file. When the refresh returns true the
  file holds the whole text of the list, and the store check accepts it whenever
  \<^verbatim>\<open>json.load\<close> reads that text back as a list of as many entries.
\<close>

theorem refresh_store_effect:
  assumes "refresh_cookies getenv dumps b f = (r, evs, f')"
  shows "(r \<longrightarrow> fs_write b = WriteOk \<and>
            (\<exists>cookies ys. read_cookies b = Inr cookies \<and> youtube_cookies cookies = Inr ys \<and>
               ys \<noteq> [] \<and> f' = Content (dumps ys)))
       \<and> (r \<and> reads_back loads dumps \<longrightarrow> check_cookies_file loads f')
       \<and> (OpenForWrite \<in> set evs \<longrightarrow>
            \<not> falsy (getenv ''YOUTUBE_EMAIL'') \<and> \<not> falsy (getenv ''YOUTUBE_PASSWORD'') \<and>
            fst (login_to_gmail b (the (getenv ''YOUTUBE_EMAIL''))
                   (the (getenv ''YOUTUBE_PASSWORD''))) \<and>
            fst (navigate_to_youtube b))
       \<and> (OpenForWrite \<notin> set evs \<longrightarrow> \<not> r \<and> f' = f)
       \<and> (OpenForWrite \<in> set evs \<longrightarrow>
            (\<exists>cookies ys. read_cookies b = Inr cookies \<and> youtube_cookies cookies = Inr ys \<and>
               ys \<noteq> [] \<and>
               (case fs_write b of
                  WriteOk \<Rightarrow> r \<and> f' = Content (dumps ys)
                | OpenFails e \<Rightarrow> \<not> r \<and> f' = f
                | WriteFails k e \<Rightarrow> \<not> r \<and> f' = Content (take k (dumps ys)))))"
proof -
  from refresh_cases[OF assms] show ?thesis
  proof
    assume "OpenForWrite \<notin> set evs \<and> \<not> r \<and> f' = f"
    then show ?thesis by simp
  next
    assume a: "\<not> falsy (getenv ''YOUTUBE_EMAIL'') \<and> \<not> falsy (getenv ''YOUTUBE_PASSWORD'') \<and>
      fst (login_to_gmail b (the (getenv ''YOUTUBE_EMAIL'')) (the (getenv ''YOUTUBE_PASSWORD''))) \<and>
      fst (navigate_to_youtube b) \<and>
      (\<exists>pre evs3 post. extract_and_save_cookies dumps b f = (r, evs3, f') \<and>
         evs = pre @ evs3 @ post \<and> OpenForWrite \<notin> set pre \<and> OpenForWrite \<notin> set post)"
    then obtain pre evs3 post where x: "extract_and_save_cookies dumps b f = (r, evs3, f')"
      and evs: "evs = pre @ evs3 @ post" and wp: "OpenForWrite \<notin> set pre"
      and wq: "OpenForWrite \<notin> set post" by blast
    from evs wp wq have mem: "OpenForWrite \<in> set evs \<longleftrightarrow> OpenForWrite \<in> set evs3" by auto
    have 1: "r \<longrightarrow> fs_write b = WriteOk \<and>
            (\<exists>cookies ys. read_cookies b = Inr cookies \<and> youtube_cookies cookies = Inr ys \<and>
               ys \<noteq> [] \<and> f' = Content (dumps ys))"
      using extract_effect(1)[OF x] .
    have 2: "r \<and> reads_back loads dumps \<longrightarrow> check_cookies_file loads f'"
    proof
      assume h: "r \<and> reads_back loads dumps"
      with 1 obtain ys where "ys \<noteq> []" and "f' = Content (dumps ys)" by blast
      with h reads_back_valid[of loads dumps ys] show "check_cookies_file loads f'" by simp
    qed
    have 4: "OpenForWrite \<notin> set evs \<longrightarrow> \<not> r \<and> f' = f"
      using extract_unopened[OF x] mem by blast
    have 5: "OpenForWrite \<in> set evs \<longrightarrow>
            (\<exists>cookies ys. read_cookies b = Inr cookies \<and> youtube_cookies cookies = Inr ys \<and>
               ys \<noteq> [] \<and>
               (case fs_write b of
                  WriteOk \<Rightarrow> r \<and> f' = Content (dumps ys)
                | OpenFails e \<Rightarrow> \<not> r \<and> f' = f
                | WriteFails k e \<Rightarrow> \<not> r \<and> f' = Content (take k (dumps ys))))"
      using extract_opened[OF x] mem by blast
    from a 1 2 4 5 show ?thesis by blast
  qed
qed

text \<open>
  A run in which the file is opened and the write fails before any byte is flushed.
\<close>

lemma full_disk_run:
  "refresh_cookies ok_env (\<lambda>ys. replicate (length ys) CHR ''c'')
     (ok_session\<lparr>fs_write := WriteFails 0 (External ''No space left on device'')\<rparr>)
     (Content ''[old]'')
   = (False,
      [Call PlaywrightStart, Call Launch, Call NewContext, Call NewPage, Call SetExtraHeaders,
       Print (MsgLoggingIn ''user@example.com''),
       Call (Goto ''https://accounts.google.com/signin'' 60000),
       Call (WaitForSelector EmailInput 60000),
       Call (Fill EmailInput ''user@example.com''), Call (Click EmailNext),
       Call (WaitForSelector PasswordInput 60000), Pause 2,
       Call (Fill PasswordInput ''hunter2''), Call (Click PasswordNext),
       Call (WaitForFunction 60000), Print MsgLoginOk, Print MsgNavigating,
       Call (Goto ''https://www.youtube.com'' 60000), Pause 3,
       Call (WaitForSelector AccountIndicator 10000), Print MsgYouTubeOk,
       Print MsgExtracting, Call ReadCookies, OpenForWrite,
       Print (MsgExtractFailed (External ''No space left on device'')),
       Print MsgRefreshFailed, Call PageClose, Call BrowserClose],
      Content [])"
  by (simp add: refresh_cookies_def refresh_cookies_async_def start_browser_def close_browser_def
      perform_login_and_save_cookies_def falsy_def ok_session_def ok_env_def login_to_gmail_def
      navigate_to_youtube_def extract_and_save_cookies_def target_domains_def subscript_def
      convert_def dict_get_def GMAIL_LOGIN_URL_def YOUTUBE_URL_def LOGIN_TIMEOUT_def)

text \<open>
  C2 as the specification words it fails: login and navigation succeed, a cookie is
  found, the file is opened and the write fails before any byte is flushed. The refresh
  returns false and the prior file is gone.
\<close>

theorem refresh_store_effect_counterexample:
  "refresh_cookies ok_env (\<lambda>ys. replicate (length ys) CHR ''c'')
     (ok_session\<lparr>fs_write := WriteFails 0 (External ''No space left on device'')\<rparr>)
     (Content ''[old]'')
   = (False,
      [Call PlaywrightStart, Call Launch, Call NewContext, Call NewPage, Call SetExtraHeaders,
       Print (MsgLoggingIn ''user@example.com''),
       Call (Goto ''https://accounts.google.com/signin'' 60000),
       Call (WaitForSelector EmailInput 60000),
       Call (Fill EmailInput ''user@example.com''), Call (Click EmailNext),
       Call (WaitForSelector PasswordInput 60000), Pause 2,
       Call (Fill PasswordInput ''hunter2''), Call (Click PasswordNext),
       Call (WaitForFunction 60000), Print MsgLoginOk, Print MsgNavigating,
       Call (Goto ''https://www.youtube.com'' 60000), Pause 3,
       Call (WaitForSelector AccountIndicator 10000), Print MsgYouTubeOk,
       Print MsgExtracting, Call ReadCookies, OpenForWrite,
       Print (MsgExtractFailed (External ''No space left on device'')),
       Print MsgRefreshFailed, Call PageClose, Call BrowserClose],
      Content [])"
  by (rule full_disk_run)

text \<open>
  The run in which every collaborator answers well.
\<close>

lemma ok_run:
  "refresh_cookies ok_env (\<lambda>ys. replicate (length ys) CHR ''c'') ok_session Absent
   = (True,
      [Call PlaywrightStart, Call Launch, Call NewContext, Call NewPage, Call SetExtraHeaders,
       Print (MsgLoggingIn ''user@example.com''),
       Call (Goto ''https://accounts.google.com/signin'' 60000),
       Call (WaitForSelector EmailInput 60000),
       Call (Fill EmailInput ''user@example.com''), Call (Click EmailNext),
       Call (WaitForSelector PasswordInput 60000), Pause 2,
       Call (Fill PasswordInput ''hunter2''), Call (Click PasswordNext),
       Call (WaitForFunction 60000), Print MsgLoginOk, Print MsgNavigating,
       Call (Goto ''https://www.youtube.com'' 60000), Pause 3,
       Call (WaitForSelector AccountIndicator 10000), Print MsgYouTubeOk,
       Print MsgExtracting, Call ReadCookies, OpenForWrite, Print (MsgSaved 1),
       Print MsgRefreshed, Call PageClose, Call BrowserClose],
      Content ''c'')"
  by (simp add: refresh_cookies_def refresh_cookies_async_def start_browser_def close_browser_def
      perform_login_and_save_cookies_def falsy_def ok_session_def ok_env_def login_to_gmail_def
      navigate_to_youtube_def extract_and_save_cookies_def target_domains_def subscript_def
      convert_def dict_get_def GMAIL_LOGIN_URL_def YOUTUBE_URL_def LOGIN_TIMEOUT_def)

text \<open>
  The theorem at that run, read back by a loader that finds one entry for every cookie
  dumped, and at the run in which the write fails.
\<close>

theorem refresh_store_effect_witness:
  "fst (refresh_cookies ok_env (\<lambda>ys. replicate (length ys) CHR ''c'') ok_session Absent) = True
   \<and> reads_back (\<lambda>s. Inr (PList (map (\<lambda>c. PDict []) s))) (\<lambda>ys. replicate (length ys) CHR ''c'')
   \<and> check_cookies_file (\<lambda>s. Inr (PList (map (\<lambda>c. PDict []) s))) (Content ''c'')
   \<and> fs_write ok_session = WriteOk
   \<and> fst (navigate_to_youtube ok_session)
   \<and> fs_write (ok_session\<lparr>fs_write := WriteFails 0 (External ''No space left on device'')\<rparr>)
       = WriteFails 0 (External ''No space left on device'')
   \<and> fst (navigate_to_youtube
            (ok_session\<lparr>fs_write := WriteFails 0 (External ''No space left on device'')\<rparr>))"
proof -
  note inst = refresh_store_effect[OF ok_run,
      where loads = "\<lambda>s. Inr (PList (map (\<lambda>c. PDict []) s))"]
  note inst2 = refresh_store_effect[OF full_disk_run,
      where loads = "\<lambda>s. Inr (PList (map (\<lambda>c. PDict []) s))"]
  have rb: "reads_back (\<lambda>s. Inr (PList (map (\<lambda>c. PDict []) s)))
              (\<lambda>ys. replicate (length ys) CHR ''c'')"
    by (simp add: reads_back_def)
  from inst have w: "fs_write ok_session = WriteOk" by simp
  from inst have n: "fst (navigate_to_youtube ok_session)" by simp
  from inst rb
  have v: "check_cookies_file (\<lambda>s. Inr (PList (map (\<lambda>c. PDict []) s))) (Content ''c'')"
    by simp
  from inst2
  have n2: "fst (navigate_to_youtube
            (ok_session\<lparr>fs_write := WriteFails 0 (External ''No space left on device'')\<rparr>))"
    by simp
  have w2: "fs_write (ok_session\<lparr>fs_write := WriteFails 0 (External ''No space left on device'')\<rparr>)
       = WriteFails 0 (External ''No space left on device'')" by simp
  from rb w n v n2 w2 show ?thesis by (simp add: ok_run)
qed

subsection \<open>Where the credentials go\<close>





















text \<open>
  The condition on the fill of the password field cannot be dropped: when the exception
  of \<^verbatim>\<open>page.fill\<close> names what was typed, the handler of line 174 prints it.
\<close>

lemma leaky_run:
  "refresh_cookies ok_env dumps leaky_session f
   = (False,
      [Call PlaywrightStart, Call Launch, Call NewContext, Call NewPage, Call SetExtraHeaders,
       Print (MsgLoggingIn ''user@example.com''),
       Call (Goto ''https://accounts.google.com/signin'' 60000),
       Call (WaitForSelector EmailInput 60000),
       Call (Fill EmailInput ''user@example.com''), Call (Click EmailNext),
       Call (WaitForSelector PasswordInput 60000), Pause 2,
       Call (Fill PasswordInput ''hunter2''),
       Print (MsgLoginFailed
         (External ''Page.fill: Timeout 60000ms exceeded. Call log: fill(hunter2)'')),
       Print MsgRefreshFailed, Call PageClose, Call BrowserClose],
      f)"
  by (simp add: refresh_cookies_def refresh_cookies_async_def start_browser_def close_browser_def
      perform_login_and_save_cookies_def falsy_def leaky_session_def ok_session_def ok_env_def
      login_to_gmail_def GMAIL_LOGIN_URL_def LOGIN_TIMEOUT_def)

section \<open>The renewal scheduler: results\<close>

subsection \<open>The loop while nobody cancels\<close>

lemma nsteps_add:
  "nsteps stop pc (a + b) =
     (case nsteps stop pc a of
        (pc', tr) \<Rightarrow> (case nsteps stop pc' b of (pc'', tr') \<Rightarrow> (pc'', tr @ tr')))"
  by (induction a arbitrary: pc) (auto split: prod.splits)

lemma worker_run_nsteps: "worker_run (\<lambda>k. stop) n = nsteps stop AtStart n"
proof (induction n)
  case 0
  then show ?case by simp
next
  case (Suc n)
  have "nsteps stop AtStart (n + 1) =
     (case nsteps stop AtStart n of
        (pc', tr) \<Rightarrow> (case nsteps stop pc' 1 of (pc'', tr') \<Rightarrow> (pc'', tr @ tr')))"
    by (rule nsteps_add)
  with Suc show ?case by (auto split: prod.splits)
qed

lemma nsteps_for:
  "i + j \<le> REFRESH_INTERVAL div 60 \<Longrightarrow>
     nsteps False (ForLoop i) j = (ForLoop (i + j), concat (replicate j tick))"
  by (induction j arbitrary: i) (auto simp: tick_def split: prod.splits)

lemma nsteps_for_all:
  "nsteps False (ForLoop 0) (REFRESH_INTERVAL div 60) =
     (ForLoop (REFRESH_INTERVAL div 60), concat (replicate (REFRESH_INTERVAL div 60) tick))"
  using nsteps_for[of 0 "REFRESH_INTERVAL div 60"] by simp

lemma nsteps_3: "nsteps False (ForLoop (REFRESH_INTERVAL div 60)) 3 =
  (WhileTest, [WCheckStop False, WPrint MsgScheduledRefresh, WRefresh])"
  by (simp add: numeral_3_eq_3)

lemma nsteps_cycle:
  "nsteps False WhileTest (REFRESH_INTERVAL div 60 + 4) = (WhileTest, cycle)"
proof -
  have a: "nsteps False WhileTest (1 + (REFRESH_INTERVAL div 60 + 3)) =
      (case nsteps False WhileTest 1 of
        (pc', tr) \<Rightarrow> (case nsteps False pc' (REFRESH_INTERVAL div 60 + 3) of
           (pc'', tr') \<Rightarrow> (pc'', tr @ tr')))"
    by (rule nsteps_add)
  have b: "nsteps False (ForLoop 0) (REFRESH_INTERVAL div 60 + 3) =
      (case nsteps False (ForLoop 0) (REFRESH_INTERVAL div 60) of
        (pc', tr) \<Rightarrow> (case nsteps False pc' 3 of (pc'', tr') \<Rightarrow> (pc'', tr @ tr')))"
    by (rule nsteps_add)
  have c: "nsteps False (ForLoop 0) (REFRESH_INTERVAL div 60 + 3) =
     (WhileTest, concat (replicate (REFRESH_INTERVAL div 60) tick) @
        [WCheckStop False, WPrint MsgScheduledRefresh, WRefresh])"
    by (simp only: b nsteps_for_all nsteps_3 prod.case)
  have d: "nsteps False WhileTest 1 = (ForLoop 0, [WCheckStop False])" by simp
  have e: "nsteps False WhileTest (REFRESH_INTERVAL div 60 + 4) =
           nsteps False WhileTest (1 + (REFRESH_INTERVAL div 60 + 3))"
    by (rule arg_cong[where f = "nsteps False WhileTest"]) simp
  show ?thesis
    by (simp only: e a d c prod.case cycle_def)
qed

lemma nsteps_cycles:
  "nsteps False WhileTest (m * (REFRESH_INTERVAL div 60 + 4)) =
     (WhileTest, concat (replicate m cycle))"
proof (induction m)
  case 0
  then show ?case by simp
next
  case (Suc m)
  have e: "nsteps False WhileTest (Suc m * (REFRESH_INTERVAL div 60 + 4)) =
     nsteps False WhileTest ((REFRESH_INTERVAL div 60 + 4) + m * (REFRESH_INTERVAL div 60 + 4))"
    by (rule arg_cong[where f = "nsteps False WhileTest"]) simp
  have a: "nsteps False WhileTest ((REFRESH_INTERVAL div 60 + 4) + m * (REFRESH_INTERVAL div 60 + 4)) =
      (case nsteps False WhileTest (REFRESH_INTERVAL div 60 + 4) of
        (pc', tr) \<Rightarrow> (case nsteps False pc' (m * (REFRESH_INTERVAL div 60 + 4)) of
           (pc'', tr') \<Rightarrow> (pc'', tr @ tr')))"
    by (rule nsteps_add)
  have "nsteps False WhileTest (Suc m * (REFRESH_INTERVAL div 60 + 4)) =
      (WhileTest, cycle @ concat (replicate m cycle))"
    by (simp only: e a nsteps_cycle Suc prod.case)
  then show ?case by simp
qed

lemma worker_forever:
  "worker_run (\<lambda>k. False) (1 + m * (REFRESH_INTERVAL div 60 + 4)) =
     (WhileTest,
      [WPrint (MsgLoopStarting (REFRESH_INTERVAL div 3600)), WRefresh] @ concat (replicate m cycle))"
proof -
  have "nsteps False AtStart (1 + m * (REFRESH_INTERVAL div 60 + 4)) =
     (case nsteps False AtStart 1 of
        (pc', tr) \<Rightarrow> (case nsteps False pc' (m * (REFRESH_INTERVAL div 60 + 4)) of
           (pc'', tr') \<Rightarrow> (pc'', tr @ tr')))"
    by (rule nsteps_add)
  moreover have "nsteps False AtStart 1 =
     (WhileTest, [WPrint (MsgLoopStarting (REFRESH_INTERVAL div 3600)), WRefresh])" by simp
  ultimately show ?thesis
    by (simp only: worker_run_nsteps nsteps_cycles prod.case)
qed

lemma worker_step_Finished:
  "fst (worker_step stop pc) = Finished \<Longrightarrow> pc = Finished \<or> stop"
  by (cases pc) (auto split: if_splits)

lemma worker_run_Finished:
  "fst (worker_run flag n) = Finished \<Longrightarrow> \<exists>k<n. flag k"
proof (induction n)
  case 0
  then show ?case by simp
next
  case (Suc n)
  obtain pc tr where r: "worker_run flag n = (pc, tr)" by (cases "worker_run flag n") blast
  with Suc.prems have "fst (worker_step (flag n) pc) = Finished"
    by (auto split: prod.splits)
  from worker_step_Finished[OF this] show ?case
  proof
    assume "pc = Finished"
    with r Suc.IH obtain k where "k < n" "flag k" by auto
    then show ?thesis using less_Suc_eq by blast
  next
    assume "flag n"
    then show ?thesis by blast
  qed
qed

lemma worker_step_sleep:
  "WSleep d \<in> set (snd (worker_step stop pc)) \<Longrightarrow>
     d = 60 \<and> \<not> stop \<and> snd (worker_step stop pc) = [WCheckStop False, WSleep 60]"
  by (cases pc) (auto split: if_splits)

subsection \<open>A worker step inside the process\<close>

lemma thread_at_Running: "thread_at s t = Running pc \<Longrightarrow> t < length (threads s)"
  by (auto simp: thread_at_def split: if_splits)

lemma seen_refreshes:
  "length (filter (is_refresh \<circ> seen ok evs) wevs) = length (filter (\<lambda>e. e = WRefresh) wevs)"
proof (induction wevs)
  case Nil
  then show ?case by simp
next
  case (Cons w ws)
  then show ?case by (cases w) simp_all
qed

lemma work_Running:
  assumes "thread_at s t = Running pc"
  shows "thread_at (work getenv dumps t b s) t = Running (fst (worker_step (stop_refresh s) pc))"
    and "stop_refresh (work getenv dumps t b s) = stop_refresh s"
    and "refresh_thread (work getenv dumps t b s) = refresh_thread s"
    and "refreshes (work getenv dumps t b s) =
           refreshes s + length (filter (\<lambda>e. e = WRefresh) (snd (worker_step (stop_refresh s) pc)))"
    and "trace (work getenv dumps t b s) =
           trace s @ map (seen (fst (refresh_cookies getenv dumps b (store s)))
                            (fst (snd (refresh_cookies getenv dumps b (store s)))))
                      (snd (worker_step (stop_refresh s) pc))"
proof -
  from thread_at_Running[OF assms] have lt: "t < length (threads s)" .
  obtain pc' wevs where ws: "worker_step (stop_refresh s) pc = (pc', wevs)"
    by (cases "worker_step (stop_refresh s) pc") blast
  obtain ok evs f' where rc: "refresh_cookies getenv dumps b (store s) = (ok, evs, f')"
    by (cases "refresh_cookies getenv dumps b (store s)") auto
  have w: "work getenv dumps t b s =
      s\<lparr>threads := (threads s)[t := Running pc'],
        store := (if WRefresh \<in> set wevs then f' else store s),
        trace := trace s @ map (seen ok evs) wevs\<rparr>"
    using assms ws rc by (simp add: work_def)
  show "thread_at (work getenv dumps t b s) t = Running (fst (worker_step (stop_refresh s) pc))"
    using w ws lt by (simp add: thread_at_def)
  show "stop_refresh (work getenv dumps t b s) = stop_refresh s" using w by simp
  show "refresh_thread (work getenv dumps t b s) = refresh_thread s" using w by simp
  show "refreshes (work getenv dumps t b s) =
           refreshes s + length (filter (\<lambda>e. e = WRefresh) (snd (worker_step (stop_refresh s) pc)))"
    using w ws by (simp add: refreshes_def filter_map seen_refreshes)
  show "trace (work getenv dumps t b s) =
           trace s @ map (seen (fst (refresh_cookies getenv dumps b (store s)))
                            (fst (snd (refresh_cookies getenv dumps b (store s)))))
                      (snd (worker_step (stop_refresh s) pc))"
    using w ws rc by simp
qed

lemma worker_step_alive: "pc \<noteq> Finished \<Longrightarrow> fst (worker_step False pc) \<noteq> Finished"
  by (cases pc) auto

text \<open>
  C4: the worker calls \<^verbatim>\<open>refresh_cookies\<close> first, whatever the flag says. A sleep is
  always a sleep of 60 seconds, taken right after a read of the flag that found it unset.
  While the flag is never set the worker goes on for ever: after the first refresh and
  any number of rounds it is back at the test of the \<^verbatim>\<open>while\<close>, each round being as
  many one-minute ticks as the interval has minutes, then a refresh. The worker ends
  only after a read of the flag found it set. What a refresh returns does not reach the
  loop: from any live control point with the flag unset the worker is alive after its
  step, whatever the collaborators answered, and a refresh that returns false is
  followed by the test of the \<^verbatim>\<open>while\<close>.
\<close>

theorem worker_schedule:
  "worker_step stop AtStart =
     (WhileTest, [WPrint (MsgLoopStarting (REFRESH_INTERVAL div 3600)), WRefresh])
   \<and> (WSleep d \<in> set (snd (worker_step stop pc)) \<longrightarrow>
        d = 60 \<and> \<not> stop \<and> snd (worker_step stop pc) = [WCheckStop False, WSleep 60])
   \<and> REFRESH_INTERVAL div 60 * 60 = REFRESH_INTERVAL
   \<and> ((\<forall>k. \<not> flag k) \<longrightarrow>
        worker_run flag (1 + m * (REFRESH_INTERVAL div 60 + 4)) =
          (WhileTest,
           [WPrint (MsgLoopStarting (REFRESH_INTERVAL div 3600)), WRefresh] @
           concat (replicate m cycle)))
   \<and> (fst (worker_run flag n) = Finished \<longrightarrow> (\<exists>k<n. flag k))
   \<and> (thread_at s t = Running pc' \<and> pc' \<noteq> Finished \<and> \<not> stop_refresh s \<longrightarrow>
        thread_at (work getenv dumps t b s) t = Running (fst (worker_step False pc')) \<and>
        is_alive (thread_at (work getenv dumps t b s) t) \<and>
        \<not> stop_refresh (work getenv dumps t b s))
   \<and> (thread_at s t = Running Refreshing \<and>
      fst (refresh_cookies getenv dumps b (store s)) = False \<longrightarrow>
        thread_at (work getenv dumps t b s) t = Running WhileTest \<and>
        trace (work getenv dumps t b s) =
          trace s @ [Refreshed False (fst (snd (refresh_cookies getenv dumps b (store s))))])"
proof -
  have 1: "worker_step stop AtStart =
     (WhileTest, [WPrint (MsgLoopStarting (REFRESH_INTERVAL div 3600)), WRefresh])" by simp
  have 2: "WSleep d \<in> set (snd (worker_step stop pc)) \<longrightarrow>
        d = 60 \<and> \<not> stop \<and> snd (worker_step stop pc) = [WCheckStop False, WSleep 60]"
    using worker_step_sleep by blast
  have 3: "REFRESH_INTERVAL div 60 * 60 = REFRESH_INTERVAL" by (simp add: REFRESH_INTERVAL_def)
  have 4: "(\<forall>k. \<not> flag k) \<longrightarrow>
        worker_run flag (1 + m * (REFRESH_INTERVAL div 60 + 4)) =
          (WhileTest,
           [WPrint (MsgLoopStarting (REFRESH_INTERVAL div 3600)), WRefresh] @
           concat (replicate m cycle))"
  proof
    assume "\<forall>k. \<not> flag k"
    then have "flag = (\<lambda>k. False)" by auto
    then show "worker_run flag (1 + m * (REFRESH_INTERVAL div 60 + 4)) =
          (WhileTest,
           [WPrint (MsgLoopStarting (REFRESH_INTERVAL div 3600)), WRefresh] @
           concat (replicate m cycle))"
      by (simp only: worker_forever)
  qed
  have 5: "fst (worker_run flag n) = Finished \<longrightarrow> (\<exists>k<n. flag k)"
    using worker_run_Finished by blast
  have 6: "thread_at s t = Running pc' \<and> pc' \<noteq> Finished \<and> \<not> stop_refresh s \<longrightarrow>
        thread_at (work getenv dumps t b s) t = Running (fst (worker_step False pc')) \<and>
        is_alive (thread_at (work getenv dumps t b s) t) \<and>
        \<not> stop_refresh (work getenv dumps t b s)"
  proof
    assume a: "thread_at s t = Running pc' \<and> pc' \<noteq> Finished \<and> \<not> stop_refresh s"
    then have r: "thread_at s t = Running pc'" and ne: "pc' \<noteq> Finished"
      and ns: "stop_refresh s = False" by simp_all
    from work_Running(1)[OF r, of getenv dumps b] ns
    have x: "thread_at (work getenv dumps t b s) t = Running (fst (worker_step False pc'))" by simp
    moreover from x worker_step_alive[OF ne]
    have "is_alive (thread_at (work getenv dumps t b s) t)" by simp
    moreover from work_Running(2)[OF r, of getenv dumps b] ns
    have "\<not> stop_refresh (work getenv dumps t b s)" by simp
    ultimately show "thread_at (work getenv dumps t b s) t = Running (fst (worker_step False pc')) \<and>
        is_alive (thread_at (work getenv dumps t b s) t) \<and>
        \<not> stop_refresh (work getenv dumps t b s)" by simp
  qed
  have 7: "thread_at s t = Running Refreshing \<and>
      fst (refresh_cookies getenv dumps b (store s)) = False \<longrightarrow>
        thread_at (work getenv dumps t b s) t = Running WhileTest \<and>
        trace (work getenv dumps t b s) =
          trace s @ [Refreshed False (fst (snd (refresh_cookies getenv dumps b (store s))))]"
  proof
    assume a: "thread_at s t = Running Refreshing \<and>
      fst (refresh_cookies getenv dumps b (store s)) = False"
    then have r: "thread_at s t = Running Refreshing" by simp
    from work_Running(1)[OF r, of getenv dumps b] work_Running(5)[OF r, of getenv dumps b] a
    show "thread_at (work getenv dumps t b s) t = Running WhileTest \<and>
        trace (work getenv dumps t b s) =
          trace s @ [Refreshed False (fst (snd (refresh_cookies getenv dumps b (store s))))]"
      by simp
  qed
  from 1 2 3 4 5 6 7 show ?thesis by blast
qed

text \<open>
  A refresh that fails: no credentials in the environment.
\<close>

lemma no_credentials_run:
  "refresh_cookies (\<lambda>k. None) (\<lambda>ys. []) ok_session Absent
   = (False,
      [Call PlaywrightStart, Call Launch, Call NewContext, Call NewPage, Call SetExtraHeaders,
       Print MsgMissingCredentials, Print MsgRefreshFailed, Call PageClose, Call BrowserClose],
      Absent)"
  by (simp add: refresh_cookies_def refresh_cookies_async_def start_browser_def close_browser_def
      perform_login_and_save_cookies_def falsy_def ok_session_def)

text \<open>
  The theorem at a tick, at two rounds of the loop, and at a worker about to run a
  refresh that fails.
\<close>

theorem worker_schedule_witness:
  "worker_step False (ForLoop 0) = (ForLoop 1, [WCheckStop False, WSleep 60])
   \<and> fst (worker_run (\<lambda>k. False) (1 + 2 * (REFRESH_INTERVAL div 60 + 4))) = WhileTest
   \<and> thread_at (work (\<lambda>k. None) (\<lambda>ys. []) 0 ok_session
        \<lparr>refresh_thread = Some 0, stop_refresh = False, threads = [Running Refreshing],
         store = Absent, trace = []\<rparr>) 0 = Running WhileTest
   \<and> is_alive (thread_at (work (\<lambda>k. None) (\<lambda>ys. []) 0 ok_session
        \<lparr>refresh_thread = Some 0, stop_refresh = False, threads = [Running Refreshing],
         store = Absent, trace = []\<rparr>) 0)
   \<and> trace (work (\<lambda>k. None) (\<lambda>ys. []) 0 ok_session
        \<lparr>refresh_thread = Some 0, stop_refresh = False, threads = [Running Refreshing],
         store = Absent, trace = []\<rparr>)
     = [Refreshed False
         [Call PlaywrightStart, Call Launch, Call NewContext, Call NewPage, Call SetExtraHeaders,
          Print MsgMissingCredentials, Print MsgRefreshFailed, Call PageClose, Call BrowserClose]]"
proof -
  let ?s = "\<lparr>refresh_thread = Some 0, stop_refresh = False, threads = [Running Refreshing],
         store = Absent, trace = []\<rparr>"
  have sl: "WSleep 60 \<in> set (snd (worker_step False (ForLoop 0)))"
    by (simp add: REFRESH_INTERVAL_def)
  have fl: "\<forall>k. \<not> (\<lambda>k. False) k" by simp
  have th: "thread_at ?s 0 = Running Refreshing \<and> Refreshing \<noteq> Finished \<and> \<not> stop_refresh ?s"
    by (simp add: thread_at_def)
  have rf: "fst (refresh_cookies (\<lambda>k. None) (\<lambda>ys. []) ok_session (store ?s)) = False"
    by (simp add: no_credentials_run)
  note inst = worker_schedule[of False 60 "ForLoop 0" "\<lambda>k. False" 2 0 ?s 0 Refreshing
      "\<lambda>k. None" "\<lambda>ys. []" ok_session]
  note i4 = inst[THEN conjunct2, THEN conjunct2, THEN conjunct2, THEN conjunct1]
  note i6 = inst[THEN conjunct2, THEN conjunct2, THEN conjunct2, THEN conjunct2, THEN conjunct2,
      THEN conjunct1]
  note i7 = inst[THEN conjunct2, THEN conjunct2, THEN conjunct2, THEN conjunct2, THEN conjunct2,
      THEN conjunct2]
  have a': "worker_step False (ForLoop 0) = (ForLoop 1, [WCheckStop False, WSleep 60])"
    by (simp add: REFRESH_INTERVAL_def)
  from i4[THEN mp, OF fl]
  have b: "fst (worker_run (\<lambda>k. False) (1 + 2 * (REFRESH_INTERVAL div 60 + 4))) = WhileTest"
    by (simp only: fst_conv)
  from i6[THEN mp, OF th]
  have c: "is_alive (thread_at (work (\<lambda>k. None) (\<lambda>ys. []) 0 ok_session ?s) 0)"
    by (rule conjunct2[THEN conjunct1])
  have th7: "thread_at ?s 0 = Running Refreshing \<and>
      fst (refresh_cookies (\<lambda>k. None) (\<lambda>ys. []) ok_session (store ?s)) = False"
    using th rf by (rule_tac conjI) (erule conjunct1)
  from i7[THEN mp, OF th7]
  have d: "thread_at (work (\<lambda>k. None) (\<lambda>ys. []) 0 ok_session ?s) 0 = Running WhileTest"
    and e: "trace (work (\<lambda>k. None) (\<lambda>ys. []) 0 ok_session ?s) =
      trace ?s @ [Refreshed False (fst (snd (refresh_cookies (\<lambda>k. None) (\<lambda>ys. []) ok_session (store ?s))))]"
    by (rule conjunct1, rule conjunct2)
  have st: "store ?s = Absent" "trace ?s = []" by simp_all
  from e have e': "trace (work (\<lambda>k. None) (\<lambda>ys. []) 0 ok_session ?s)
     = [Refreshed False
         [Call PlaywrightStart, Call Launch, Call NewContext, Call NewPage, Call SetExtraHeaders,
          Print MsgMissingCredentials, Print MsgRefreshFailed, Call PageClose, Call BrowserClose]]"
    by (simp only: st no_credentials_run fst_conv snd_conv append_Nil)
  from a' b c d e' show ?thesis by (intro conjI)
qed

subsection \<open>One worker at most\<close>

lemma sched_inv_initial: "sched_inv (initial f)"
  by (simp add: sched_inv_def initial_def)

lemma in_butlast_or_last: "x \<in> set xs \<Longrightarrow> x \<in> set (butlast xs) \<or> x = last xs"
  by (induction xs) (auto split: if_splits)

lemma filter_butlast_dead:
  "\<forall>x\<in>set (butlast xs). \<not> P x \<Longrightarrow> length (filter P xs) \<le> 1"
  by (induction xs) (auto split: if_splits)

lemma sched_inv_all_dead:
  assumes "sched_inv s" and "\<not> worker_alive s"
  shows "\<forall>x\<in>set (threads s). \<not> is_alive x"
proof (cases "refresh_thread s")
  case None
  with assms show ?thesis by (simp add: sched_inv_def)
next
  case (Some t)
  with assms have len: "length (threads s) = Suc t"
    and dead: "\<forall>x\<in>set (butlast (threads s)). \<not> is_alive x"
    by (simp_all add: sched_inv_def)
  from len have ne: "threads s \<noteq> []" by auto
  from len ne have "last (threads s) = threads s ! t" by (simp add: last_conv_nth)
  with assms(2) Some len have nl: "\<not> is_alive (last (threads s))"
    by (simp add: worker_alive_def thread_at_def)
  show ?thesis
  proof
    fix x
    assume "x \<in> set (threads s)"
    from in_butlast_or_last[OF this] dead nl show "\<not> is_alive x" by blast
  qed
qed

lemma sched_inv_start: "sched_inv s \<Longrightarrow> sched_inv (fst (start_cookie_refresh_loop spawn s))"
proof -
  assume inv: "sched_inv s"
  show ?thesis
  proof (cases "worker_alive s")
    case True
    with inv show ?thesis
      by (simp add: start_cookie_refresh_loop_def sched_inv_def split: option.splits)
  next
    case False
    from sched_inv_all_dead[OF inv False] show ?thesis
      using False by (cases spawn) (simp_all add: start_cookie_refresh_loop_def sched_inv_def)
  qed
qed

lemma sched_inv_work: "sched_inv s \<Longrightarrow> sched_inv (work getenv dumps t b s)"
proof -
  assume inv: "sched_inv s"
  show ?thesis
  proof (cases "thread_at s t")
    case Unstarted
    with inv show ?thesis by (simp add: work_def)
  next
    case (Running pc)
    from thread_at_Running[OF Running] have lt: "t < length (threads s)" .
    obtain pc' wevs where ws: "worker_step (stop_refresh s) pc = (pc', wevs)"
      by (cases "worker_step (stop_refresh s) pc") blast
    obtain ok evs f' where rc: "refresh_cookies getenv dumps b (store s) = (ok, evs, f')"
      by (cases "refresh_cookies getenv dumps b (store s)") auto
    have w: "work getenv dumps t b s =
      s\<lparr>threads := (threads s)[t := Running pc'],
        store := (if WRefresh \<in> set wevs then f' else store s),
        trace := trace s @ map (seen ok evs) wevs\<rparr>"
      using Running ws rc by (simp add: work_def)
    from lt inv obtain r where r: "refresh_thread s = Some r" and len: "length (threads s) = Suc r"
      and dead: "\<forall>x\<in>set (butlast (threads s)). \<not> is_alive x"
      by (cases "refresh_thread s") (auto simp: sched_inv_def)
    have "\<forall>x\<in>set (butlast ((threads s)[t := Running pc'])). \<not> is_alive x"
    proof (cases "t = length (threads s) - 1")
      case True
      then show ?thesis using dead by (simp add: butlast_list_update)
    next
      case False
      with lt have tb: "t < length (butlast (threads s))" by simp
      then have "butlast (threads s) ! t = Running pc"
        using Running lt by (simp add: nth_butlast thread_at_def)
      with dead tb have "\<not> is_alive (Running pc)" by (metis nth_mem)
      then have "pc = Finished" by simp
      with ws have "pc' = Finished" by simp
      then have nd: "\<not> is_alive (Running pc')" by simp
      have "set ((butlast (threads s))[t := Running pc']) \<subseteq>
            insert (Running pc') (set (butlast (threads s)))"
        by (rule set_update_subset_insert)
      with nd dead have "\<forall>x\<in>set ((butlast (threads s))[t := Running pc']). \<not> is_alive x"
        by blast
      with False show ?thesis by (simp add: butlast_list_update)
    qed
    with w r len show ?thesis by (simp add: sched_inv_def)
  qed
qed


lemma sched_inv_work_steps: "sched_inv s \<Longrightarrow> sched_inv (work_steps getenv dumps t bs s)"
  by (induction bs arbitrary: s) (simp_all add: sched_inv_work)

lemma sched_inv_flag: "sched_inv (s\<lparr>stop_refresh := v\<rparr>) = sched_inv s"
  by (cases "refresh_thread s") (simp_all add: sched_inv_def)

lemma sched_inv_trace: "sched_inv (s\<lparr>trace := v\<rparr>) = sched_inv s"
  by (cases "refresh_thread s") (simp_all add: sched_inv_def)

lemma sched_inv_stop:
  "sched_inv s \<Longrightarrow> sched_inv (fst (stop_cookie_refresh_loop getenv dumps during s))"
proof -
  assume inv: "sched_inv s"
  show ?thesis
  proof (cases "refresh_thread s")
    case None
    with inv show ?thesis by (simp add: stop_cookie_refresh_loop_def sched_inv_flag)
  next
    case (Some t)
    show ?thesis
    proof (cases "thread_at s t")
      case Unstarted
      with Some inv show ?thesis by (simp add: stop_cookie_refresh_loop_def sched_inv_flag)
    next
      case (Running pc)
      from inv have "sched_inv (s\<lparr>stop_refresh := True\<rparr>)" by (simp only: sched_inv_flag)
      then have "sched_inv (work_steps getenv dumps t during (s\<lparr>stop_refresh := True\<rparr>))"
        by (rule sched_inv_work_steps)
      with Some Running show ?thesis
        by (simp add: stop_cookie_refresh_loop_def sched_inv_trace)
    qed
  qed
qed

lemma sched_inv_act: "sched_inv s \<Longrightarrow> sched_inv (act getenv dumps a s)"
  by (cases a) (simp_all add: sched_inv_start sched_inv_stop sched_inv_work)

lemma sched_inv_run: "sched_inv s \<Longrightarrow> sched_inv (run getenv dumps acts s)"
  by (induction acts arbitrary: s) (simp_all add: sched_inv_act)

lemma sched_inv_live: "sched_inv s \<Longrightarrow> live_workers s \<le> 1"
proof (cases "refresh_thread s")
  case None
  assume "sched_inv s"
  with None show ?thesis by (simp add: sched_inv_def live_workers_def)
next
  case (Some t)
  assume "sched_inv s"
  with Some have dead: "\<forall>x\<in>set (butlast (threads s)). \<not> is_alive x"
    by (simp add: sched_inv_def)
  from filter_butlast_dead[OF dead] show ?thesis by (simp add: live_workers_def)
qed


subsection \<open>Start, stop and the worker after stop\<close>

lemma run_works: "run getenv dumps (works t bs) s = work_steps getenv dumps t bs s"
  by (induction bs arbitrary: s) (simp_all add: works_def)

lemma worker_step_stopped:
  "steps_left (fst (worker_step True pc)) = steps_left pc - 1"
  "length (filter (\<lambda>e. e = WRefresh) (snd (worker_step True pc))) +
     committed (fst (worker_step True pc)) = committed pc"
  by (cases pc; simp)+

lemma steps_left_0: "steps_left pc = 0 \<Longrightarrow> pc = Finished"
  by (cases pc) simp_all

lemma steps_left_le: "steps_left pc \<le> 3"
  by (cases pc) simp_all


lemma committed_after_stop: "committed (fst (worker_step True pc)) = 0"
  by (cases pc) simp_all

lemma stopped_run:
  "stop_refresh s \<Longrightarrow> thread_at s t = Running pc \<Longrightarrow>
     \<exists>pc'. thread_at (run getenv dumps (works t bs) s) t = Running pc' \<and>
           stop_refresh (run getenv dumps (works t bs) s) \<and>
           refreshes (run getenv dumps (works t bs) s) + committed pc' = refreshes s + committed pc \<and>
           steps_left pc' = steps_left pc - length bs \<and>
           (bs \<noteq> [] \<longrightarrow> committed pc' = 0)"
proof (induction bs arbitrary: s pc)
  case Nil
  then show ?case by (simp add: works_def)
next
  case (Cons b bs)
  let ?s1 = "work getenv dumps t b s"
  let ?pc1 = "fst (worker_step True pc)"
  from Cons.prems have st: "stop_refresh s = True" by simp
  from work_Running(1)[OF Cons.prems(2), of getenv dumps b] st
  have t1: "thread_at ?s1 t = Running ?pc1" by simp
  from work_Running(2)[OF Cons.prems(2), of getenv dumps b] st
  have s1: "stop_refresh ?s1" by simp
  from work_Running(4)[OF Cons.prems(2), of getenv dumps b] st
  have r1: "refreshes ?s1 =
     refreshes s + length (filter (\<lambda>e. e = WRefresh) (snd (worker_step True pc)))" by simp
  from Cons.IH[OF s1 t1] obtain pc' where
    a: "thread_at (run getenv dumps (works t bs) ?s1) t = Running pc'"
    and b: "stop_refresh (run getenv dumps (works t bs) ?s1)"
    and c: "refreshes (run getenv dumps (works t bs) ?s1) + committed pc' =
            refreshes ?s1 + committed ?pc1"
    and d: "steps_left pc' = steps_left ?pc1 - length bs"
    and e: "bs \<noteq> [] \<longrightarrow> committed pc' = 0" by blast
  have run: "run getenv dumps (works t (b # bs)) s = run getenv dumps (works t bs) ?s1"
    by (simp add: works_def)
  from c r1 worker_step_stopped(2)[of pc]
  have c': "refreshes (run getenv dumps (works t bs) ?s1) + committed pc' =
            refreshes s + committed pc" by simp
  from d worker_step_stopped(1)[of pc]
  have d': "steps_left pc' = steps_left pc - length (b # bs)" by simp
  have e': "committed pc' = 0"
  proof (cases bs)
    case Nil
    with a t1 have "pc' = ?pc1" by (simp add: works_def)
    then show ?thesis by (simp only: committed_after_stop)
  next
    case (Cons x xs)
    with e show ?thesis by simp
  qed
  from a b c' d' e' show ?case unfolding run by blast
qed

lemma refreshes_work_mono: "refreshes s \<le> refreshes (work getenv dumps t b s)"
proof (cases "thread_at s t")
  case Unstarted
  then show ?thesis by (simp add: work_def)
next
  case (Running pc)
  from work_Running(4)[OF Running, of getenv dumps b] show ?thesis by simp
qed

lemma refreshes_works_mono: "refreshes s \<le> refreshes (run getenv dumps (works t bs) s)"
proof (induction bs arbitrary: s)
  case Nil
  then show ?case by (simp add: works_def)
next
  case (Cons b bs)
  have "refreshes s \<le> refreshes (work getenv dumps t b s)" by (rule refreshes_work_mono)
  also have "\<dots> \<le> refreshes (run getenv dumps (works t bs) (work getenv dumps t b s))"
    by (rule Cons.IH)
  finally show ?case by (simp add: works_def)
qed

lemma stopped_run_first:
  assumes "stop_refresh s" and "thread_at s t = Running pc"
  shows "refreshes (run getenv dumps (works t (b # bs)) s) = refreshes (work getenv dumps t b s)"
proof -
  let ?s1 = "work getenv dumps t b s"
  let ?pc1 = "fst (worker_step True pc)"
  from assms have st: "stop_refresh s = True" by simp
  from work_Running(1)[OF assms(2), of getenv dumps b] st
  have t1: "thread_at ?s1 t = Running ?pc1" by simp
  from work_Running(2)[OF assms(2), of getenv dumps b] st
  have s1: "stop_refresh ?s1" by simp
  from stopped_run[OF s1 t1, of getenv dumps bs] obtain pc' where
    "refreshes (run getenv dumps (works t bs) ?s1) + committed pc' =
       refreshes ?s1 + committed ?pc1" by blast
  with committed_after_stop[of pc]
  have le: "refreshes (run getenv dumps (works t bs) ?s1) \<le> refreshes ?s1" by simp
  have ge: "refreshes ?s1 \<le> refreshes (run getenv dumps (works t bs) ?s1)"
    by (rule refreshes_works_mono)
  have "run getenv dumps (works t (b # bs)) s = run getenv dumps (works t bs) ?s1"
    by (simp add: works_def)
  with le ge show ?thesis by simp
qed

lemma thread_at_flag: "thread_at (s\<lparr>stop_refresh := v\<rparr>) t = thread_at s t"
  by (simp add: thread_at_def)

lemma thread_at_trace: "thread_at (s\<lparr>trace := v\<rparr>) t = thread_at s t"
  by (simp add: thread_at_def)

lemma refreshes_trace_tail:
  "refreshes (s\<lparr>trace := trace s @ [Joined t n, Said m]\<rparr>) = refreshes s"
  by (simp add: refreshes_def)

lemma stop_Running:
  assumes "refresh_thread s = Some t" and "thread_at s t = Running pc"
  shows "stop_cookie_refresh_loop getenv dumps during s =
     ((run getenv dumps (works t during) (s\<lparr>stop_refresh := True\<rparr>))
        \<lparr>trace := trace (run getenv dumps (works t during) (s\<lparr>stop_refresh := True\<rparr>)) @
                  [Joined t 5, Said MsgStopRequested]\<rparr>, None)"
  using assms by (simp add: stop_cookie_refresh_loop_def run_works)

lemma after_stop:
  assumes "refresh_thread s = Some t" and "thread_at s t = Running pc" and "during \<noteq> []"
  shows "refreshes (run getenv dumps (works t bs)
            (fst (stop_cookie_refresh_loop getenv dumps during s))) =
         refreshes (fst (stop_cookie_refresh_loop getenv dumps during s))"
proof -
  let ?s1 = "s\<lparr>stop_refresh := True\<rparr>"
  let ?s2 = "run getenv dumps (works t during) ?s1"
  let ?s3 = "?s2\<lparr>trace := trace ?s2 @ [Joined t 5, Said MsgStopRequested]\<rparr>"
  have f1: "stop_refresh ?s1" by simp
  have t1: "thread_at ?s1 t = Running pc" using assms(2) by (simp only: thread_at_flag)
  from stopped_run[OF f1 t1, of getenv dumps during] assms(3) obtain pc' where
    t2: "thread_at ?s2 t = Running pc'" and f2: "stop_refresh ?s2" and c2: "committed pc' = 0"
    by blast
  have t3: "thread_at ?s3 t = Running pc'" using t2 by (simp only: thread_at_trace)
  have f3: "stop_refresh ?s3" using f2 by simp
  from stopped_run[OF f3 t3, of getenv dumps bs] c2
  have "refreshes (run getenv dumps (works t bs) ?s3) \<le> refreshes ?s3" by auto
  moreover have "refreshes ?s3 \<le> refreshes (run getenv dumps (works t bs) ?s3)"
    by (rule refreshes_works_mono)
  ultimately have "refreshes (run getenv dumps (works t bs) ?s3) = refreshes ?s3" by simp
  moreover have "fst (stop_cookie_refresh_loop getenv dumps during s) = ?s3"
    by (simp only: stop_Running[OF assms(1,2)] fst_conv)
  ultimately show ?thesis by simp
qed

text \<open>
  C5, as the code has it: in every state the process can reach by calls of start, calls
  of stop and steps of the workers, at most one worker is alive. A call of start while
  the worker is alive changes nothing but the trace, and two calls of start in a row
  leave exactly one worker. A call of stop before any start sets the flag and raises
  nothing. A call of stop on a started worker sets the flag, waits in the join of 5
  seconds while the worker takes its steps, and prints its line after the join has
  returned. When the worker takes at least one step while stop waits, no refresh begins
  after stop has returned. In every case, once the flag is set it stays set under the
  worker's steps, the worker begins no refresh other than one it was already committed
  to (at the start of the loop, or past the test that follows the sleeps), that one in
  its very next step, and after three of its steps at most it has ended.
\<close>

theorem scheduler_start_stop:
  "live_workers (run getenv dumps acts (initial f)) \<le> 1
   \<and> (worker_alive s \<longrightarrow>
        start_cookie_refresh_loop spawn s = (s\<lparr>trace := trace s @ [Said MsgAlreadyRunning]\<rparr>, None))
   \<and> live_workers (run getenv dumps [Start None, Start spawn] (initial f)) = 1
   \<and> stop_cookie_refresh_loop getenv dumps during (initial f) =
        ((initial f)\<lparr>stop_refresh := True\<rparr>, None)
   \<and> (refresh_thread s = Some t \<and> thread_at s t = Running pc \<longrightarrow>
        stop_cookie_refresh_loop getenv dumps during s =
          ((run getenv dumps (works t during) (s\<lparr>stop_refresh := True\<rparr>))
             \<lparr>trace := trace (run getenv dumps (works t during) (s\<lparr>stop_refresh := True\<rparr>)) @
                       [Joined t 5, Said MsgStopRequested]\<rparr>, None))
   \<and> (refresh_thread s = Some t \<and> thread_at s t = Running pc \<and> during \<noteq> [] \<longrightarrow>
        refreshes (run getenv dumps (works t bs)
            (fst (stop_cookie_refresh_loop getenv dumps during s))) =
        refreshes (fst (stop_cookie_refresh_loop getenv dumps during s)))
   \<and> (stop_refresh s \<and> thread_at s t = Running pc \<longrightarrow>
        stop_refresh (run getenv dumps (works t bs) s) \<and>
        refreshes (run getenv dumps (works t bs) s) \<le> refreshes s + committed pc \<and>
        (3 \<le> length bs \<longrightarrow> thread_at (run getenv dumps (works t bs) s) t = Running Finished))
   \<and> (stop_refresh s \<and> thread_at s t = Running pc \<longrightarrow>
        refreshes (run getenv dumps (works t (b # bs)) s) = refreshes (work getenv dumps t b s))"
proof -
  have 1: "live_workers (run getenv dumps acts (initial f)) \<le> 1"
    by (rule sched_inv_live, rule sched_inv_run, rule sched_inv_initial)
  have 2: "worker_alive s \<longrightarrow>
        start_cookie_refresh_loop spawn s = (s\<lparr>trace := trace s @ [Said MsgAlreadyRunning]\<rparr>, None)"
    by (simp add: start_cookie_refresh_loop_def)
  have 3: "live_workers (run getenv dumps [Start None, Start spawn] (initial f)) = 1"
    by (simp add: start_cookie_refresh_loop_def worker_alive_def initial_def thread_at_def
        live_workers_def)
  have 4: "stop_cookie_refresh_loop getenv dumps during (initial f) =
        ((initial f)\<lparr>stop_refresh := True\<rparr>, None)"
    by (simp add: stop_cookie_refresh_loop_def initial_def)
  have 5: "refresh_thread s = Some t \<and> thread_at s t = Running pc \<longrightarrow>
        stop_cookie_refresh_loop getenv dumps during s =
          ((run getenv dumps (works t during) (s\<lparr>stop_refresh := True\<rparr>))
             \<lparr>trace := trace (run getenv dumps (works t during) (s\<lparr>stop_refresh := True\<rparr>)) @
                       [Joined t 5, Said MsgStopRequested]\<rparr>, None)"
    using stop_Running by blast
  have 6: "refresh_thread s = Some t \<and> thread_at s t = Running pc \<and> during \<noteq> [] \<longrightarrow>
        refreshes (run getenv dumps (works t bs)
            (fst (stop_cookie_refresh_loop getenv dumps during s))) =
        refreshes (fst (stop_cookie_refresh_loop getenv dumps during s))"
    using after_stop by blast
  have 7: "stop_refresh s \<and> thread_at s t = Running pc \<longrightarrow>
        stop_refresh (run getenv dumps (works t bs) s) \<and>
        refreshes (run getenv dumps (works t bs) s) \<le> refreshes s + committed pc \<and>
        (3 \<le> length bs \<longrightarrow> thread_at (run getenv dumps (works t bs) s) t = Running Finished)"
  proof
    assume h: "stop_refresh s \<and> thread_at s t = Running pc"
    then have hs: "stop_refresh s" and ht: "thread_at s t = Running pc" by simp_all
    from stopped_run[OF hs ht, of getenv dumps bs] obtain pc' where
      a: "thread_at (run getenv dumps (works t bs) s) t = Running pc'"
      and b: "stop_refresh (run getenv dumps (works t bs) s)"
      and c: "refreshes (run getenv dumps (works t bs) s) + committed pc' =
              refreshes s + committed pc"
      and d: "steps_left pc' = steps_left pc - length bs" by blast
    from c have c': "refreshes (run getenv dumps (works t bs) s) \<le> refreshes s + committed pc"
      by arith
    have e: "3 \<le> length bs \<longrightarrow> thread_at (run getenv dumps (works t bs) s) t = Running Finished"
    proof
      assume "3 \<le> length bs"
      with d steps_left_le[of pc] have "steps_left pc' = 0" by arith
      from steps_left_0[OF this] a
      show "thread_at (run getenv dumps (works t bs) s) t = Running Finished" by simp
    qed
    from b c' e show "stop_refresh (run getenv dumps (works t bs) s) \<and>
        refreshes (run getenv dumps (works t bs) s) \<le> refreshes s + committed pc \<and>
        (3 \<le> length bs \<longrightarrow> thread_at (run getenv dumps (works t bs) s) t = Running Finished)"
      by (intro conjI)
  qed
  have 8: "stop_refresh s \<and> thread_at s t = Running pc \<longrightarrow>
        refreshes (run getenv dumps (works t (b # bs)) s) = refreshes (work getenv dumps t b s)"
    using stopped_run_first by blast
  from 1 2 3 4 5 6 7 8 show ?thesis by (intro conjI)
qed

text \<open>
  The point between the test of line 358 and the call of line 360 is reached: by a
  start and the steps of one round.
\<close>

lemma unstopped_run:
  "\<not> stop_refresh s \<Longrightarrow> thread_at s t = Running pc \<Longrightarrow>
     thread_at (run getenv dumps (works t bs) s) t = Running (fst (nsteps False pc (length bs))) \<and>
     \<not> stop_refresh (run getenv dumps (works t bs) s)"
proof (induction bs arbitrary: s pc)
  case Nil
  then show ?case by (simp add: works_def)
next
  case (Cons b bs)
  let ?s1 = "work getenv dumps t b s"
  from Cons.prems have st: "stop_refresh s = False" by simp
  from work_Running(1)[OF Cons.prems(2), of getenv dumps b] st
  have t1: "thread_at ?s1 t = Running (fst (worker_step False pc))" by simp
  from work_Running(2)[OF Cons.prems(2), of getenv dumps b] st
  have s1: "\<not> stop_refresh ?s1" by simp
  have run: "run getenv dumps (works t (b # bs)) s = run getenv dumps (works t bs) ?s1"
    by (simp add: works_def)
  have "fst (nsteps False pc (length (b # bs))) =
        fst (nsteps False (fst (worker_step False pc)) (length bs))"
    by (simp split: prod.splits)
  with Cons.IH[OF s1 t1] show ?case unfolding run by simp
qed

lemma nsteps_to_refreshing:
  "fst (nsteps False AtStart (REFRESH_INTERVAL div 60 + 4)) = Refreshing"
proof -
  have e: "nsteps False AtStart (REFRESH_INTERVAL div 60 + 4) =
           nsteps False AtStart (2 + (REFRESH_INTERVAL div 60 + 2))"
    by (rule arg_cong[where f = "nsteps False AtStart"]) simp
  have a: "nsteps False AtStart (2 + (REFRESH_INTERVAL div 60 + 2)) =
      (case nsteps False AtStart 2 of
        (pc', tr) \<Rightarrow> (case nsteps False pc' (REFRESH_INTERVAL div 60 + 2) of
           (pc'', tr') \<Rightarrow> (pc'', tr @ tr')))"
    by (rule nsteps_add)
  have b: "nsteps False (ForLoop 0) (REFRESH_INTERVAL div 60 + 2) =
      (case nsteps False (ForLoop 0) (REFRESH_INTERVAL div 60) of
        (pc', tr) \<Rightarrow> (case nsteps False pc' 2 of (pc'', tr') \<Rightarrow> (pc'', tr @ tr')))"
    by (rule nsteps_add)
  have c: "nsteps False AtStart 2 =
     (ForLoop 0, [WPrint (MsgLoopStarting (REFRESH_INTERVAL div 3600)), WRefresh, WCheckStop False])"
    by (simp add: numeral_2_eq_2)
  have d: "nsteps False (ForLoop (REFRESH_INTERVAL div 60)) 2 =
     (Refreshing, [WCheckStop False, WPrint MsgScheduledRefresh])"
    by (simp add: numeral_2_eq_2)
  show ?thesis
    by (simp only: e a c b nsteps_for_all d prod.case fst_conv)
qed

lemma refreshing_reachable:
  "length bs = REFRESH_INTERVAL div 60 + 4 \<Longrightarrow>
     thread_at (run getenv dumps (Start None # works 0 bs) (initial f)) 0 = Running Refreshing \<and>
     \<not> stop_refresh (run getenv dumps (Start None # works 0 bs) (initial f)) \<and>
     refresh_thread (run getenv dumps (Start None # works 0 bs) (initial f)) = Some 0"
proof -
  assume len: "length bs = REFRESH_INTERVAL div 60 + 4"
  let ?s0 = "fst (start_cookie_refresh_loop None (initial f))"
  have f0: "\<not> stop_refresh ?s0"
    by (simp add: start_cookie_refresh_loop_def worker_alive_def initial_def)
  have t0: "thread_at ?s0 0 = Running AtStart"
    by (simp add: start_cookie_refresh_loop_def worker_alive_def initial_def thread_at_def)
  have r0: "refresh_thread ?s0 = Some 0"
    by (simp add: start_cookie_refresh_loop_def worker_alive_def initial_def)
  have run: "run getenv dumps (Start None # works 0 bs) (initial f) =
             run getenv dumps (works 0 bs) ?s0" by simp
  have rt: "refresh_thread (run getenv dumps (works 0 bs) s) = refresh_thread s" for s
  proof (induction bs arbitrary: s)
    case Nil
    then show ?case by (simp add: works_def)
  next
    case (Cons b bs)
    have "refresh_thread (work getenv dumps 0 b s) = refresh_thread s"
    proof (cases "thread_at s 0")
      case Unstarted
      then show ?thesis by (simp add: work_def)
    next
      case (Running pc)
      from work_Running(3)[OF Running] show ?thesis .
    qed
    with Cons.IH[of "work getenv dumps 0 b s"] show ?case by (simp add: works_def)
  qed
  from unstopped_run[OF f0 t0, of getenv dumps bs] len nsteps_to_refreshing rt[of ?s0] r0
  show ?thesis unfolding run by simp
qed

text \<open>
  C5 as the specification words it fails: the worker has passed the test that follows
  the sleeps, stop sets the flag and its join runs out before the worker takes its next
  step, and the scheduled refresh begins after stop has returned.
\<close>

theorem scheduler_start_stop_counterexample:
  "thread_at (run (\<lambda>k. None) (\<lambda>ys. []) (Start None # works 0 (replicate 724 ok_session))
      (initial Absent)) 0 = Running Refreshing
   \<and> trace (run (\<lambda>k. None) (\<lambda>ys. []) [Stop [], Work 0 ok_session]
      \<lparr>refresh_thread = Some 0, stop_refresh = False, threads = [Running Refreshing],
       store = Absent, trace = []\<rparr>)
   = [Joined 0 5, Said MsgStopRequested,
      Refreshed False
        [Call PlaywrightStart, Call Launch, Call NewContext, Call NewPage, Call SetExtraHeaders,
         Print MsgMissingCredentials, Print MsgRefreshFailed, Call PageClose, Call BrowserClose]]"
proof -
  have "length (replicate 724 ok_session) = REFRESH_INTERVAL div 60 + 4"
    by (simp add: REFRESH_INTERVAL_def)
  from refreshing_reachable[OF this, of "\<lambda>k. None" "\<lambda>ys. []" Absent]
  have a: "thread_at (run (\<lambda>k. None) (\<lambda>ys. []) (Start None # works 0 (replicate 724 ok_session))
      (initial Absent)) 0 = Running Refreshing" by (rule conjunct1)
  have b: "trace (run (\<lambda>k. None) (\<lambda>ys. []) [Stop [], Work 0 ok_session]
      \<lparr>refresh_thread = Some 0, stop_refresh = False, threads = [Running Refreshing],
       store = Absent, trace = []\<rparr>)
   = [Joined 0 5, Said MsgStopRequested,
      Refreshed False
        [Call PlaywrightStart, Call Launch, Call NewContext, Call NewPage, Call SetExtraHeaders,
         Print MsgMissingCredentials, Print MsgRefreshFailed, Call PageClose, Call BrowserClose]]"
    by (simp add: stop_cookie_refresh_loop_def thread_at_def work_def no_credentials_run)
  from a b show ?thesis by (rule conjI)
qed

text \<open>
  The theorem at a started scheduler, at a worker that takes a step while stop waits,
  and at a worker stopped in the middle of its sleeps.
\<close>

theorem scheduler_start_stop_witness:
  "live_workers (run (\<lambda>k. None) (\<lambda>ys. []) [Start None, Start None, Stop [], Work 0 ok_session]
      (initial Absent)) \<le> 1
   \<and> worker_alive \<lparr>refresh_thread = Some 0, stop_refresh = False, threads = [Running AtStart],
                    store = Absent, trace = [Spawned 0, Said MsgLoopStarted]\<rparr>
   \<and> fst (start_cookie_refresh_loop None
        \<lparr>refresh_thread = Some 0, stop_refresh = False, threads = [Running AtStart],
         store = Absent, trace = [Spawned 0, Said MsgLoopStarted]\<rparr>)
     = \<lparr>refresh_thread = Some 0, stop_refresh = False, threads = [Running AtStart],
        store = Absent, trace = [Spawned 0, Said MsgLoopStarted, Said MsgAlreadyRunning]\<rparr>
   \<and> stop_cookie_refresh_loop (\<lambda>k. None) (\<lambda>ys. []) []
        \<lparr>refresh_thread = Some 0, stop_refresh = False, threads = [Running AtStart],
         store = Absent, trace = [Spawned 0, Said MsgLoopStarted]\<rparr>
     = (\<lparr>refresh_thread = Some 0, stop_refresh = True, threads = [Running AtStart],
         store = Absent,
         trace = [Spawned 0, Said MsgLoopStarted, Joined 0 5, Said MsgStopRequested]\<rparr>, None)
   \<and> refreshes (run (\<lambda>k. None) (\<lambda>ys. []) (works 0 [ok_session, ok_session])
        (fst (stop_cookie_refresh_loop (\<lambda>k. None) (\<lambda>ys. []) [ok_session]
           \<lparr>refresh_thread = Some 0, stop_refresh = False, threads = [Running Refreshing],
            store = Absent, trace = []\<rparr>)))
     = refreshes (fst (stop_cookie_refresh_loop (\<lambda>k. None) (\<lambda>ys. []) [ok_session]
           \<lparr>refresh_thread = Some 0, stop_refresh = False, threads = [Running Refreshing],
            store = Absent, trace = []\<rparr>))
   \<and> refreshes (run (\<lambda>k. None) (\<lambda>ys. []) (works 0 [ok_session, ok_session, ok_session])
        \<lparr>refresh_thread = Some 0, stop_refresh = True, threads = [Running (ForLoop 5)],
         store = Absent, trace = []\<rparr>) = 0
   \<and> thread_at (run (\<lambda>k. None) (\<lambda>ys. []) (works 0 [ok_session, ok_session, ok_session])
        \<lparr>refresh_thread = Some 0, stop_refresh = True, threads = [Running (ForLoop 5)],
         store = Absent, trace = []\<rparr>) 0 = Running Finished"
proof -
  let ?s1 = "\<lparr>refresh_thread = Some 0, stop_refresh = False, threads = [Running AtStart],
                    store = Absent, trace = [Spawned 0, Said MsgLoopStarted]\<rparr>"
  let ?s2 = "\<lparr>refresh_thread = Some 0, stop_refresh = True, threads = [Running (ForLoop 5)],
         store = Absent, trace = []\<rparr>"
  let ?s3 = "\<lparr>refresh_thread = Some 0, stop_refresh = False, threads = [Running Refreshing],
            store = Absent, trace = []\<rparr>"
  let ?bs = "[ok_session, ok_session, ok_session]"
  note inst1 = scheduler_start_stop[where getenv = "\<lambda>k. None" and dumps = "\<lambda>ys. []"
      and acts = "[Start None, Start None, Stop [], Work 0 ok_session]" and f = Absent and s = ?s1
      and spawn = None and t = 0 and pc = AtStart and bs = "[]" and during = "[]"]
  note inst2 = scheduler_start_stop[where getenv = "\<lambda>k. None" and dumps = "\<lambda>ys. []"
      and acts = "[]" and f = Absent and s = ?s2 and spawn = None and t = 0
      and pc = "ForLoop 5" and bs = ?bs and during = "[]"]
  note inst3 = scheduler_start_stop[where getenv = "\<lambda>k. None" and dumps = "\<lambda>ys. []"
      and acts = "[]" and f = Absent and s = ?s3 and spawn = None and t = 0
      and pc = Refreshing and bs = "[ok_session, ok_session]" and during = "[ok_session]"]
  have alive: "worker_alive ?s1" by (simp add: worker_alive_def thread_at_def)
  have h5: "refresh_thread ?s1 = Some 0 \<and> thread_at ?s1 0 = Running AtStart"
    by (simp add: thread_at_def)
  have h6: "refresh_thread ?s3 = Some 0 \<and> thread_at ?s3 0 = Running Refreshing \<and>
            [ok_session] \<noteq> []"
    by (simp add: thread_at_def)
  have h7: "stop_refresh ?s2 \<and> thread_at ?s2 0 = Running (ForLoop 5)"
    by (simp add: thread_at_def)
  have len: "3 \<le> length ?bs" by simp
  have a: "live_workers (run (\<lambda>k. None) (\<lambda>ys. []) [Start None, Start None, Stop [], Work 0 ok_session]
      (initial Absent)) \<le> 1"
    by (rule inst1[THEN conjunct1])
  from inst1[THEN conjunct2, THEN conjunct1, THEN mp, OF alive]
  have b: "fst (start_cookie_refresh_loop None ?s1)
     = \<lparr>refresh_thread = Some 0, stop_refresh = False, threads = [Running AtStart],
        store = Absent, trace = [Spawned 0, Said MsgLoopStarted, Said MsgAlreadyRunning]\<rparr>"
    by simp
  from inst1[THEN conjunct2, THEN conjunct2, THEN conjunct2, THEN conjunct2, THEN conjunct1,
      THEN mp, OF h5]
  have c: "stop_cookie_refresh_loop (\<lambda>k. None) (\<lambda>ys. []) [] ?s1
     = (\<lparr>refresh_thread = Some 0, stop_refresh = True, threads = [Running AtStart],
         store = Absent,
         trace = [Spawned 0, Said MsgLoopStarted, Joined 0 5, Said MsgStopRequested]\<rparr>, None)"
    by (simp add: works_def)
  from inst3[THEN conjunct2, THEN conjunct2, THEN conjunct2, THEN conjunct2, THEN conjunct2,
      THEN conjunct1, THEN mp, OF h6]
  have d: "refreshes (run (\<lambda>k. None) (\<lambda>ys. []) (works 0 [ok_session, ok_session])
        (fst (stop_cookie_refresh_loop (\<lambda>k. None) (\<lambda>ys. []) [ok_session] ?s3)))
     = refreshes (fst (stop_cookie_refresh_loop (\<lambda>k. None) (\<lambda>ys. []) [ok_session] ?s3))" .
  note i7 = inst2[THEN conjunct2, THEN conjunct2, THEN conjunct2, THEN conjunct2, THEN conjunct2,
      THEN conjunct2, THEN conjunct1, THEN mp, OF h7]
  from i7[THEN conjunct2, THEN conjunct1]
  have e: "refreshes (run (\<lambda>k. None) (\<lambda>ys. []) (works 0 ?bs) ?s2) = 0"
    by (simp add: refreshes_def)
  from i7[THEN conjunct2, THEN conjunct2, THEN mp, OF len]
  have g: "thread_at (run (\<lambda>k. None) (\<lambda>ys. []) (works 0 ?bs) ?s2) 0 = Running Finished" .
  from a alive b c d e g show ?thesis by (intro conjI)
qed

end
